theory Spec2Isabelle
  imports Main "HOL-Library.Word"
begin

unbundle bit_operations_syntax

section \<open>Machine integers and the Goldilocks field element (cuda/def.cuh)\<close>

type_synonym u32 = "32 word"
type_synonym u64 = "64 word"
type_synonym u128 = "128 word"

text \<open>
  The failures of the source as values: a failed \<^verbatim>\<open>assert\<close>, an overflow of the signed
  128-bit coefficients of \<^verbatim>\<open>inverse\<close> (undefined behaviour in C++), and an array access
  outside its bounds.
\<close>

datatype error = AssertionFailed | SignedOverflow | OutOfBounds

text \<open>\<^verbatim>\<open>overflowing_add\<close> and \<^verbatim>\<open>overflowing_sub\<close> return the wrapped result; the flag the
  source writes through \<^verbatim>\<open>int* overflow\<close> is the second component (0 or 1).\<close>

definition overflowing_add :: "u64 \<Rightarrow> u64 \<Rightarrow> u64 \<times> u64" where
  "overflowing_add a b = (a + b, if (- 1) - b < a then 1 else 0)"

definition overflowing_sub :: "u64 \<Rightarrow> u64 \<Rightarrow> u64 \<times> u64" where
  "overflowing_sub a b = (a - b, if a < b then 1 else 0)"

definition EPSILON :: u64 where
  "EPSILON = push_bit 32 1 - 1"

definition ORDER :: u64 where
  "ORDER = 0xFFFFFFFF00000001"

record GoldilocksField =
  data :: u64

definition from_canonical_u64 :: "u64 \<Rightarrow> GoldilocksField" where
  "from_canonical_u64 n = \<lparr>data = n\<rparr>"

definition to_noncanonical_u64 :: "GoldilocksField \<Rightarrow> u64" where
  "to_noncanonical_u64 x = data x"

text \<open>\<^verbatim>\<open>operator+\<close>: the assertion inside the double-overflow branch is a branch of the model.\<close>

definition gf_add :: "GoldilocksField \<Rightarrow> GoldilocksField \<Rightarrow> error + GoldilocksField" where
  "gf_add x rhs =
     (let (sum1, over1) = overflowing_add (data x) (data rhs);
          (sum2, over2) = overflowing_add sum1 (over1 * EPSILON)
      in if over2 \<noteq> 0
         then (if ORDER < data x \<and> ORDER < data rhs
               then Inr \<lparr>data = sum2 + EPSILON\<rparr>
               else Inl AssertionFailed)
         else Inr \<lparr>data = sum2\<rparr>)"

text \<open>\<^verbatim>\<open>operator-\<close> (binary).\<close>

definition gf_sub :: "GoldilocksField \<Rightarrow> GoldilocksField \<Rightarrow> error + GoldilocksField" where
  "gf_sub x rhs =
     (let (diff1, under1) = overflowing_sub (data x) (data rhs);
          (diff2, under2) = overflowing_sub diff1 (under1 * EPSILON)
      in if under2 \<noteq> 0
         then (if data x < EPSILON - 1 \<and> ORDER < data rhs
               then Inr \<lparr>data = diff2 - EPSILON\<rparr>
               else Inl AssertionFailed)
         else Inr \<lparr>data = diff2\<rparr>)"

definition reduce128 :: "u64 \<Rightarrow> u64 \<Rightarrow> GoldilocksField" where
  "reduce128 x_hi x_lo =
     (let x_hi_hi = drop_bit 32 x_hi;
          x_hi_lo = x_hi AND EPSILON;
          (t0', borrow) = overflowing_sub x_lo x_hi_hi;
          t0 = (if borrow \<noteq> 0 then t0' - EPSILON else t0');
          t1 = x_hi_lo * EPSILON;
          t2 = (if (- 1) - t1 < t0 then (t1 + t0) + 0xffffffff else t0 + t1)
      in \<lparr>data = t2\<rparr>)"

text \<open>\<^verbatim>\<open>operator*\<close>: the schoolbook product of the 32-bit halves, then \<^verbatim>\<open>reduce128\<close>.\<close>

definition gf_mul :: "GoldilocksField \<Rightarrow> GoldilocksField \<Rightarrow> GoldilocksField" where
  "gf_mul x rhs =
     (let a = data x; b = data rhs;
          a_low = a AND 0xFFFFFFFF;
          a_high = drop_bit 32 a;
          b_low = b AND 0xFFFFFFFF;
          b_high = drop_bit 32 b;
          product_low = a_low * b_low;
          product_mid1 = a_low * b_high;
          product_mid2 = a_high * b_low;
          product_high = a_high * b_high;
          carry = drop_bit 32 product_low + (product_mid1 AND 0xFFFFFFFF)
                    + (product_mid2 AND 0xFFFFFFFF);
          high = product_high + drop_bit 32 product_mid1 + drop_bit 32 product_mid2
                    + drop_bit 32 carry;
          low = push_bit 32 carry + (product_low AND 0xFFFFFFFF)
      in reduce128 high low)"

definition square :: "GoldilocksField \<Rightarrow> GoldilocksField" where
  "square x = gf_mul x x"

text \<open>\<^verbatim>\<open>operator==\<close> compares the stored words; unary \<^verbatim>\<open>operator-\<close> negates the stored
  word modulo \<open>2 ^ 64\<close>.\<close>

definition gf_eq :: "GoldilocksField \<Rightarrow> GoldilocksField \<Rightarrow> bool" where
  "gf_eq x rhs = (data rhs = data x)"

definition gf_neg :: "GoldilocksField \<Rightarrow> GoldilocksField" where
  "gf_neg x = \<lparr>data = - data x\<rparr>"

text \<open>\<^verbatim>\<open>multiply_accumulate\<close>, \<^verbatim>\<open>add_canonical_u64\<close> and \<^verbatim>\<open>operator+=\<close>, \<^verbatim>\<open>operator*=\<close>
  are \<^verbatim>\<open>operator+\<close> and \<^verbatim>\<open>operator*\<close> on the current value.\<close>

definition multiply_accumulate ::
  "GoldilocksField \<Rightarrow> GoldilocksField \<Rightarrow> GoldilocksField \<Rightarrow> error + GoldilocksField" where
  "multiply_accumulate acc x y = gf_add acc (gf_mul x y)"


text \<open>\<^verbatim>\<open>from_noncanonical_u128\<close> and \<^verbatim>\<open>from_noncanonical_u96\<close>.\<close>

definition from_noncanonical_u128 :: "u128 \<Rightarrow> GoldilocksField" where
  "from_noncanonical_u128 n =
     reduce128 (ucast (drop_bit 64 n)) (ucast (n AND 0xFFFFFFFFFFFFFFFF))"

definition from_noncanonical_u96 :: "u64 \<Rightarrow> u32 \<Rightarrow> GoldilocksField" where
  "from_noncanonical_u96 n_lo n_hi =
     (let n = push_bit 64 (ucast n_hi :: u128) + ucast n_lo
      in from_noncanonical_u128 n)"

section \<open>Modular inverse\<close>

text \<open>
  The lambda \<^verbatim>\<open>trailing_zeros\<close> is a loop that only stops at a set low bit. On \<open>0\<close> it
  never stops: the model has no value there (\<open>None\<close>). The counter is at most 63 whenever
  the loop stops.
\<close>

partial_function (option) trailing_zeros_loop :: "u64 \<Rightarrow> nat \<Rightarrow> nat option" where
  "trailing_zeros_loop n count =
     (if n AND 1 = 0 then trailing_zeros_loop (drop_bit 1 n) (count + 1) else Some count)"

declare trailing_zeros_loop.simps [code]

definition trailing_zeros :: "u64 \<Rightarrow> nat option" where
  "trailing_zeros n = trailing_zeros_loop n 0"

text \<open>
  The coefficients \<^verbatim>\<open>c\<close> and \<^verbatim>\<open>d\<close> are \<^verbatim>\<open>__int128\<close>. They are modelled as
  integers; a result outside the 128-bit signed range is undefined behaviour in the source
  and the error \<open>SignedOverflow\<close> here.
\<close>

definition i128 :: "int \<Rightarrow> error + int" where
  "i128 x = (if - (2 ^ 127) \<le> x \<and> x < 2 ^ 127 then Inr x else Inl SignedOverflow)"

type_synonym gcd_state = "u64 \<times> u64 \<times> int \<times> int \<times> u32"

definition safe_iteration :: "gcd_state \<Rightarrow> (error + gcd_state) option" where
  "safe_iteration s =
     (case s of (f0, g0, c0, d0, k) \<Rightarrow>
      (let (f, g, c, d) = (if f0 < g0 then (g0, f0, d0, c0) else (f0, g0, c0, d0))
       in if f AND 3 = g AND 3
          then (let f1 = f - g
                in case i128 (c - d) of Inl e \<Rightarrow> Some (Inl e) | Inr c1 \<Rightarrow>
                   (case trailing_zeros f1 of None \<Rightarrow> None | Some kk \<Rightarrow>
                    (case i128 (d * 2 ^ kk) of Inl e \<Rightarrow> Some (Inl e) | Inr d1 \<Rightarrow>
                       Some (Inr (drop_bit kk f1, g, c1, d1, k + of_nat kk)))))
          else (let f1 = drop_bit 2 f + drop_bit 2 g + 1
                in case i128 (c + d) of Inl e \<Rightarrow> Some (Inl e) | Inr c1 \<Rightarrow>
                   (case trailing_zeros f1 of None \<Rightarrow> None | Some kk \<Rightarrow>
                    (case i128 (d * 2 ^ (kk + 2)) of Inl e \<Rightarrow> Some (Inl e) | Inr d1 \<Rightarrow>
                       Some (Inr (drop_bit kk f1, g, c1, d1, k + of_nat (kk + 2))))))))"

definition unsafe_iteration :: "gcd_state \<Rightarrow> (error + gcd_state) option" where
  "unsafe_iteration s =
     (case s of (f0, g0, c0, d0, k) \<Rightarrow>
      (let (f, g, c, d) = (if f0 < g0 then (g0, f0, d0, c0) else (f0, g0, c0, d0));
           (f1, c1') = (if f AND 3 = g AND 3 then (f - g, c - d) else (f + g, c + d))
       in case i128 c1' of Inl e \<Rightarrow> Some (Inl e) | Inr c1 \<Rightarrow>
          (case trailing_zeros f1 of None \<Rightarrow> None | Some kk \<Rightarrow>
           (case i128 (d * 2 ^ kk) of Inl e \<Rightarrow> Some (Inl e) | Inr d1 \<Rightarrow>
              Some (Inr (drop_bit kk f1, g, c1, d1, k + of_nat kk))))))"

text \<open>\<^verbatim>\<open>while (f != 1) unsafe_iteration(f, g, c, d, k);\<close>\<close>

partial_function (option) inverse_loop :: "gcd_state \<Rightarrow> (error + gcd_state) option" where
  "inverse_loop s =
     (if fst s \<noteq> 1
      then (case unsafe_iteration s of
              None \<Rightarrow> None
            | Some (Inl e) \<Rightarrow> Some (Inl e)
            | Some (Inr s') \<Rightarrow> inverse_loop s')
      else Some (Inr s))"

declare inverse_loop.simps [code]

text \<open>\<^verbatim>\<open>inverse_2exp\<close>: the loop multiplies by the inverse of \<open>2 ^ 32\<close> while the exponent
  exceeds the two-adicity.\<close>

definition TWO_ADICITY :: u64 where
  "TWO_ADICITY = 32"

definition inverse_2_pow_adicity :: GoldilocksField where
  "inverse_2_pow_adicity =
     from_canonical_u64 (ORDER - drop_bit (unat TWO_ADICITY) (ORDER - 1))"

function inverse_2exp_loop :: "GoldilocksField \<Rightarrow> u64 \<Rightarrow> GoldilocksField \<times> u64" where
  "inverse_2exp_loop res e =
     (if TWO_ADICITY < e
      then inverse_2exp_loop (gf_mul res inverse_2_pow_adicity) (e - TWO_ADICITY)
      else (res, e))"
  by pat_completeness auto
termination
proof (relation "measure (\<lambda>(res, e). unat e)")
  show "wf (measure (\<lambda>(res, e). unat e))" by simp
next
  fix res :: GoldilocksField and e :: u64
  assume "TWO_ADICITY < e"
  then have "TWO_ADICITY \<le> e" by simp
  then have "unat (e - TWO_ADICITY) = unat e - unat TWO_ADICITY"
    by (rule unat_sub)
  then show "((gf_mul res inverse_2_pow_adicity, e - TWO_ADICITY), (res, e))
               \<in> measure (\<lambda>(res, e). unat e)"
    using \<open>TWO_ADICITY < e\<close> by (simp add: TWO_ADICITY_def word_less_nat_alt)
qed

definition inverse_2exp :: "u64 \<Rightarrow> GoldilocksField" where
  "inverse_2exp exp =
     (if TWO_ADICITY < exp
      then (let (res, e) = inverse_2exp_loop inverse_2_pow_adicity (exp - TWO_ADICITY)
            in gf_mul res (from_canonical_u64 (ORDER - drop_bit (unat e) (ORDER - 1))))
      else from_canonical_u64 (ORDER - drop_bit (unat exp) (ORDER - 1)))"

text \<open>The two loops that bring \<^verbatim>\<open>c\<close> into \<open>[0, ORDER)\<close>. Neither addition nor
  subtraction can leave the 128-bit range: \<^verbatim>\<open>c\<close> moves towards that interval.\<close>

function canon_add :: "int \<Rightarrow> int" where
  "canon_add c = (if c < 0 then canon_add (c + uint ORDER) else c)"
  by pat_completeness auto
termination
  by (relation "measure (\<lambda>c. nat (- c))") (auto simp: ORDER_def)

function canon_sub :: "int \<Rightarrow> int" where
  "canon_sub c = (if uint ORDER \<le> c then canon_sub (c - uint ORDER) else c)"
  by pat_completeness auto
termination
  by (relation "measure (\<lambda>c. nat c)") (auto simp: ORDER_def)

declare canon_add.simps [simp del] canon_sub.simps [simp del] inverse_2exp_loop.simps [simp del]

text \<open>
  \<^verbatim>\<open>inverse\<close> up to the end of the \<^verbatim>\<open>while (f != 1)\<close> loop: either one of the early
  returns has produced the result, or the loop has ended with the coefficient \<^verbatim>\<open>c\<close> and
  the shift count \<^verbatim>\<open>k\<close>.
\<close>

datatype gcd_exit = Early GoldilocksField | LoopExit int u32

definition inverse_gcd :: "GoldilocksField \<Rightarrow> (error + gcd_exit) option" where
  "inverse_gcd x =
     (case trailing_zeros (data x) of None \<Rightarrow> None | Some tz \<Rightarrow>
      (let k = (of_nat tz :: u32);
           f = drop_bit (unat k) (data x)
       in if f = 1 then Some (Inr (Early (inverse_2exp (ucast k))))
          else (case safe_iteration (f, ORDER, 1, 0, k) of
                  None \<Rightarrow> None
                | Some (Inl e) \<Rightarrow> Some (Inl e)
                | Some (Inr (f1, g1, c1, d1, k1)) \<Rightarrow>
                   if f1 = 1
                   then (if c1 = - 1 then Some (Inr (Early (gf_neg (inverse_2exp (ucast k1)))))
                         else if c1 = 1 then Some (Inr (Early (inverse_2exp (ucast k1))))
                         else Some (Inl AssertionFailed))
                   else (case safe_iteration (f1, g1, c1, d1, k1) of
                           None \<Rightarrow> None
                         | Some (Inl e) \<Rightarrow> Some (Inl e)
                         | Some (Inr s2) \<Rightarrow>
                            (case inverse_loop s2 of
                               None \<Rightarrow> None
                             | Some (Inl e) \<Rightarrow> Some (Inl e)
                             | Some (Inr (f3, g3, c3, d3, k3)) \<Rightarrow>
                                 Some (Inr (LoopExit c3 k3)))))))"

definition inverse :: "GoldilocksField \<Rightarrow> (error + GoldilocksField) option" where
  "inverse x =
     (case inverse_gcd x of
        None \<Rightarrow> None
      | Some (Inl e) \<Rightarrow> Some (Inl e)
      | Some (Inr (Early r)) \<Rightarrow> Some (Inr r)
      | Some (Inr (LoopExit c k)) \<Rightarrow>
          Some (Inr (gf_mul (from_canonical_u64 (word_of_int (canon_sub (canon_add c))))
                            (inverse_2exp (ucast k)))))"

section \<open>Poseidon permutation and hash\<close>

text \<open>
  The file \<^verbatim>\<open>constants.cuh\<close> that \<^verbatim>\<open>def.cuh\<close> includes is not part of the sources at
  hand. Its round counts, the sponge rate and its tables are the fields of a configuration
  the functions below take as a parameter. A table is the function from an index to the
  64-bit entry stored there (two indices for the two-dimensional tables).
\<close>

record poseidon_config =
  SPONGE_RATE :: nat
  N_ROUNDS :: nat
  HALF_N_FULL_ROUNDS :: nat
  N_PARTIAL_ROUNDS :: nat
  ALL_ROUND_CONSTANTS :: "nat \<Rightarrow> u64"
  MDS_MATRIX_CIRC :: "nat \<Rightarrow> u64"
  MDS_MATRIX_DIAG :: "nat \<Rightarrow> u64"
  FAST_PARTIAL_FIRST_ROUND_CONSTANT :: "nat \<Rightarrow> u64"
  FAST_PARTIAL_ROUND_CONSTANTS :: "nat \<Rightarrow> u64"
  FAST_PARTIAL_ROUND_INITIAL_MATRIX :: "nat \<Rightarrow> nat \<Rightarrow> u64"
  FAST_PARTIAL_ROUND_W_HATS :: "nat \<Rightarrow> nat \<Rightarrow> u64"
  FAST_PARTIAL_ROUND_VS :: "nat \<Rightarrow> nat \<Rightarrow> u64"

text \<open>Modelled from the spec: \<^verbatim>\<open>SPONGE_WIDTH\<close> is defined in the missing
  \<^verbatim>\<open>constants.cuh\<close>; the specification fixes the state to 12 field elements, and the loops
  of the source run to the literal 12.\<close>

definition SPONGE_WIDTH :: nat where
  "SPONGE_WIDTH = 12"

definition zero_elem :: GoldilocksField where
  "zero_elem = \<lparr>data = 0\<rparr>"

text \<open>A loop whose body can fail: the first failure ends it.\<close>

fun foldE :: "('a \<Rightarrow> 's \<Rightarrow> error + 's) \<Rightarrow> 'a list \<Rightarrow> 's \<Rightarrow> error + 's" where
  "foldE f [] s = Inr s"
| "foldE f (x # xs) s = (case f x s of Inl e \<Rightarrow> Inl e | Inr s' \<Rightarrow> foldE f xs s')"

text \<open>The 160-bit accumulator: a 128-bit word and a 32-bit overflow count.\<close>

definition add_u160_u128 :: "u128 \<times> u32 \<Rightarrow> u128 \<Rightarrow> u128 \<times> u32" where
  "add_u160_u128 pa y =
     (let x_lo = fst pa; x_hi = snd pa;
          over = (- 1) - y < x_lo;
          res_lo = x_lo + y;
          res_hi = x_hi + (if over then 1 else 0)
      in (res_lo, res_hi))"

definition reduce_u160 :: "u128 \<times> u32 \<Rightarrow> GoldilocksField" where
  "reduce_u160 pa =
     (let n_lo = fst pa; n_hi = snd pa;
          n_lo_hi = (ucast (drop_bit 64 n_lo) :: u64);
          n_lo_lo = (ucast n_lo :: u64);
          reduced_hi = to_noncanonical_u64 (from_noncanonical_u96 n_lo_hi n_hi);
          reduced128 = push_bit 64 (ucast reduced_hi :: u128) + ucast n_lo_lo
      in from_noncanonical_u128 reduced128)"


definition sbox_monomial :: "GoldilocksField \<Rightarrow> GoldilocksField" where
  "sbox_monomial x =
     (let x2 = square x;
          x4 = square x2;
          x3 = gf_mul x x2
      in gf_mul x3 x4)"


definition mds_row_shf :: "poseidon_config \<Rightarrow> nat \<Rightarrow> u64 list \<Rightarrow> error + u128" where
  "mds_row_shf cfg r v =
     (if r < SPONGE_WIDTH
      then (let res = fold (\<lambda>i res.
                         if i < SPONGE_WIDTH
                         then res + ucast (v ! ((i + r) mod SPONGE_WIDTH)) * ucast (MDS_MATRIX_CIRC cfg i)
                         else res) [0..<12] (0 :: u128)
            in Inr (res + ucast (v ! r) * ucast (MDS_MATRIX_DIAG cfg r)))
      else Inl AssertionFailed)"

definition mds_layer :: "poseidon_config \<Rightarrow> GoldilocksField list \<Rightarrow> error + GoldilocksField list" where
  "mds_layer cfg state =
     (let state' = map (\<lambda>r. to_noncanonical_u64 (state ! r)) [0..<SPONGE_WIDTH]
      in foldE (\<lambda>r st.
           if r < SPONGE_WIDTH
           then (case mds_row_shf cfg r state' of
                   Inl e \<Rightarrow> Inl e
                 | Inr row_sum \<Rightarrow>
                     (let sum_lo = (ucast row_sum :: u64);
                          sum_hi = (ucast (drop_bit 64 row_sum) :: u32)
                      in Inr (st[r := from_noncanonical_u96 sum_lo sum_hi])))
           else Inr st) [0..<12] state)"


text \<open>Writing the local array \<^verbatim>\<open>result\<close> back: \<^verbatim>\<open>state[i] = result[i]\<close> for the first
  \<open>n\<close> indices.\<close>

definition copy_back :: "nat \<Rightarrow> GoldilocksField list \<Rightarrow> GoldilocksField list \<Rightarrow> GoldilocksField list" where
  "copy_back n result state = fold (\<lambda>i st. st[i := result ! i]) [0..<n] state"


text \<open>\<^verbatim>\<open>mds_partial_layer_fast\<close>. The local array \<^verbatim>\<open>result\<close> is not initialised in the
  source; every entry is written before it is read back.\<close>

definition mds_partial_layer_fast ::
  "poseidon_config \<Rightarrow> nat \<Rightarrow> GoldilocksField list \<Rightarrow> error + GoldilocksField list" where
  "mds_partial_layer_fast cfg r state =
     (let d_sum = fold (\<lambda>i acc.
                     if i < SPONGE_WIDTH
                     then (let t = (ucast (FAST_PARTIAL_ROUND_W_HATS cfg r (i - 1)) :: u128);
                               si = (ucast (to_noncanonical_u64 (state ! i)) :: u128)
                           in add_u160_u128 acc (si * t))
                     else acc) [1..<12] (0, 0);
          s0 = (ucast (to_noncanonical_u64 (state ! 0)) :: u128);
          mds0to0 = (ucast (MDS_MATRIX_CIRC cfg 0 + MDS_MATRIX_DIAG cfg 0) :: u128);
          d_sum' = add_u160_u128 d_sum (s0 * mds0to0);
          d = reduce_u160 d_sum';
          result0 = (replicate SPONGE_WIDTH zero_elem)[0 := d]
      in case foldE (\<lambda>i res.
                if i < SPONGE_WIDTH
                then (let t = from_canonical_u64 (FAST_PARTIAL_ROUND_VS cfg r (i - 1))
                      in case multiply_accumulate (state ! i) (state ! 0) t of
                           Inl e \<Rightarrow> Inl e
                         | Inr v \<Rightarrow> Inr (res[i := v]))
                else Inr res) [1..<12] result0 of
           Inl e \<Rightarrow> Inl e
         | Inr result \<Rightarrow> Inr (copy_back 12 result state))"








text \<open>
  A configuration for running the functions on concrete inputs: the rate, the round counts
  and the circulant and diagonal MDS entries of the reference parameterisation of Poseidon
  over this field with width 12; every other table is zero.
\<close>

definition example_config :: poseidon_config where
  "example_config =
     \<lparr>SPONGE_RATE = 8, N_ROUNDS = 30, HALF_N_FULL_ROUNDS = 4, N_PARTIAL_ROUNDS = 22,
      ALL_ROUND_CONSTANTS = (\<lambda>i. 0),
      MDS_MATRIX_CIRC = (\<lambda>i. if i < 12 then [17, 15, 41, 16, 2, 28, 13, 13, 39, 18, 34, 20] ! i else 0),
      MDS_MATRIX_DIAG = (\<lambda>i. if i = 0 then 8 else 0),
      FAST_PARTIAL_FIRST_ROUND_CONSTANT = (\<lambda>i. 0),
      FAST_PARTIAL_ROUND_CONSTANTS = (\<lambda>i. 0),
      FAST_PARTIAL_ROUND_INITIAL_MATRIX = (\<lambda>r c. 0),
      FAST_PARTIAL_ROUND_W_HATS = (\<lambda>r i. 0),
      FAST_PARTIAL_ROUND_VS = (\<lambda>r i. 0)\<rparr>"

text \<open>The state whose lane 2 holds one and whose other lanes hold zero.\<close>

definition e2 :: "GoldilocksField list" where
  "e2 = [\<lparr>data = 0\<rparr>, \<lparr>data = 0\<rparr>, \<lparr>data = 1\<rparr>, \<lparr>data = 0\<rparr>, \<lparr>data = 0\<rparr>, \<lparr>data = 0\<rparr>,
         \<lparr>data = 0\<rparr>, \<lparr>data = 0\<rparr>, \<lparr>data = 0\<rparr>, \<lparr>data = 0\<rparr>, \<lparr>data = 0\<rparr>, \<lparr>data = 0\<rparr>]"

section \<open>Residues\<close>

text \<open>The modulus as a natural number, and the residue a field element stands for.\<close>

definition P :: nat where
  "P = 18446744069414584321"

definition val :: "GoldilocksField \<Rightarrow> nat" where
  "val x = unat (data x) mod P"

text \<open>The number a 160-bit accumulator stands for.\<close>

definition u160_val :: "u128 \<times> u32 \<Rightarrow> nat" where
  "u160_val pa = unat (snd pa) * 2 ^ 128 + unat (fst pa)"





section \<open>Arithmetic of 64-bit words as natural numbers\<close>

lemma u64_bound: "unat (x::u64) < 18446744073709551616"
  using unsigned_less [of x, where 'a = nat] by simp

lemma unat_EPSILON: "unat EPSILON = 4294967295"
  by (simp add: EPSILON_def)

lemma unat_ORDER: "unat ORDER = 18446744069414584321"
  by (simp add: ORDER_def)

lemma u64_add_nat:
  "unat (a + b :: u64) =
     (if unat a + unat b < 18446744073709551616 then unat a + unat b
      else unat a + unat b - 18446744073709551616)"
  using unat_plus_if' [of a b] by simp

lemma u64_sub_nat:
  "unat (a - b :: u64) =
     (if unat b \<le> unat a then unat a - unat b
      else unat a + 18446744073709551616 - unat b)"
  using unat_sub_if_size [of a b] by (simp add: word_size)

lemma unat_max64: "unat (- 1 :: u64) = 18446744073709551615"
  by (simp add: unsigned_minus_1_eq_mask mask_eq_exp_minus_1)

lemma u64_add_overflows:
  "((- 1) - b < (a::u64)) = (18446744073709551616 \<le> unat a + unat b)"
proof -
  have "unat ((- 1 :: u64) - b) = 18446744073709551615 - unat b"
    using u64_bound [of b] by (simp add: u64_sub_nat unat_max64)
  then show ?thesis
    using u64_bound [of a] u64_bound [of b] by (simp add: word_less_nat_alt) arith
qed

lemma overflowing_add_eq:
  "overflowing_add a b = (a + b, if 18446744073709551616 \<le> unat a + unat b then 1 else 0)"
  by (simp add: overflowing_add_def u64_add_overflows)

lemma overflowing_sub_eq:
  "overflowing_sub a b = (a - b, if unat a < unat b then 1 else 0)"
  by (simp add: overflowing_sub_def word_less_nat_alt)

lemma gf_add_cases:
  fixes a b :: GoldilocksField
  defines "x \<equiv> unat (data a)" and "y \<equiv> unat (data b)"
  shows "\<exists>r. gf_add a b = Inr r \<and>
           unat (data r) = (if x + y < 18446744073709551616 then x + y
                            else if x + y < 36893488143124135937 then x + y - 18446744069414584321
                            else x + y - 36893488138829168642)"
proof -
  have bx: "x < 18446744073709551616" and by': "y < 18446744073709551616"
    unfolding x_def y_def by (rule u64_bound)+
  show ?thesis
  proof (cases "x + y < 18446744073709551616")
    case True
    then have "gf_add a b = Inr \<lparr>data = data a + data b\<rparr>"
      using u64_bound [of "data a + data b"] unfolding x_def y_def
      by (simp add: gf_add_def overflowing_add_eq)
    moreover have "unat (data a + data b) = x + y"
      using True unfolding x_def y_def by (simp add: u64_add_nat)
    ultimately show ?thesis using True by simp
  next
    case False
    then have s1: "unat (data a + data b) = x + y - 18446744073709551616"
      unfolding x_def y_def by (simp add: u64_add_nat)
    show ?thesis
    proof (cases "x + y < 36893488143124135937")
      case True
      have "gf_add a b = Inr \<lparr>data = data a + data b + EPSILON\<rparr>"
        using False True s1 unfolding x_def y_def
        by (auto simp: gf_add_def overflowing_add_eq unat_EPSILON)
      moreover have "unat (data a + data b + EPSILON) = x + y - 18446744069414584321"
        using False True s1 by (simp add: u64_add_nat [of _ EPSILON] unat_EPSILON)
      ultimately show ?thesis using False True by simp
    next
      case F2: False
      have ord: "ORDER < data a" "ORDER < data b"
        using F2 bx by' unfolding x_def y_def by (simp_all add: word_less_nat_alt unat_ORDER)
      define s2 where "s2 = data a + data b + EPSILON"
      have "gf_add a b = Inr \<lparr>data = s2 + EPSILON\<rparr>"
        using False F2 s1 ord unfolding x_def y_def s2_def
        by (auto simp: gf_add_def overflowing_add_eq unat_EPSILON)
      moreover have u2: "unat s2 = x + y - 36893488143124135937"
        unfolding s2_def using False F2 s1 by (simp add: u64_add_nat [of _ EPSILON] unat_EPSILON)
      have "unat (s2 + EPSILON) = x + y - 36893488138829168642"
        using bx by' F2 by (simp add: u64_add_nat [of s2 EPSILON] unat_EPSILON u2)
      ultimately show ?thesis using False F2 by simp
    qed
  qed
qed

lemma mod_P_sub: "P \<le> n \<Longrightarrow> (n - P) mod P = n mod P"
  by (simp add: le_mod_geq)

lemma gf_add_val: "\<exists>r. gf_add a b = Inr r \<and> val r = (unat (data a) + unat (data b)) mod P"
proof -
  let ?x = "unat (data a)" and ?y = "unat (data b)"
  obtain r where r: "gf_add a b = Inr r" and
    u: "unat (data r) = (if ?x + ?y < 18446744073709551616 then ?x + ?y
                            else if ?x + ?y < 36893488143124135937 then ?x + ?y - 18446744069414584321
                            else ?x + ?y - 36893488138829168642)"
    using gf_add_cases [of a b] by blast
  have "unat (data r) mod P = (?x + ?y) mod P"
  proof (cases "?x + ?y < 18446744073709551616")
    case True then show ?thesis using u by simp
  next
    case False
    show ?thesis
    proof (cases "?x + ?y < 36893488143124135937")
      case True
      then have "unat (data r) = ?x + ?y - P" using False u by (simp add: P_def)
      moreover have "P \<le> ?x + ?y" using False by (simp add: P_def)
      ultimately show ?thesis by (simp add: mod_P_sub)
    next
      case F2: False
      then have "unat (data r) = (?x + ?y - P) - P" using False u by (simp add: P_def)
      moreover have "P \<le> ?x + ?y" "P \<le> ?x + ?y - P" using F2 by (simp_all add: P_def)
      ultimately show ?thesis
        using mod_P_sub [of "?x + ?y"] mod_P_sub [of "?x + ?y - P"] by simp
    qed
  qed
  then show ?thesis using r by (auto simp: val_def)
qed

lemma u64_shr32: "unat (drop_bit 32 (x::u64)) = unat x div 4294967296"
  by (subst unat_drop_bit_eq) (simp add: drop_bit_eq_div)

lemma EPSILON_mask: "EPSILON = mask 32"
  by (simp add: EPSILON_def mask_eq_exp_minus_1)

lemma u64_and_EPSILON: "unat ((x::u64) AND EPSILON) = unat x mod 4294967296"
proof -
  have "x AND EPSILON = take_bit 32 x"
    by (simp add: EPSILON_mask take_bit_eq_mask)
  then have "unat (x AND EPSILON) = take_bit 32 (unat x)"
    by (simp only: unsigned_take_bit_eq)
  then show ?thesis by (simp add: take_bit_eq_mod)
qed

lemma u64_and_lit: "unat ((x::u64) AND 0xFFFFFFFF) = unat x mod 4294967296"
  using u64_and_EPSILON [of x] by (simp add: EPSILON_def)

lemma u64_mul_nat: "unat a * unat b < 18446744073709551616 \<Longrightarrow> unat (a * b :: u64) = unat a * unat b"
  using unat_mult_lem [of a b] by simp

lemma u64_shl32: "unat (push_bit 32 (x::u64)) = (unat x * 4294967296) mod 18446744073709551616"
proof -
  have "unat (push_bit 32 x) = take_bit 64 (push_bit 32 (unat x))"
    by (subst unsigned_push_bit_eq) simp
  then show ?thesis by (simp add: take_bit_eq_mod push_bit_eq_mult)
qed

lemma gf_sub_cases:
  fixes a b :: GoldilocksField
  defines "x \<equiv> unat (data a)" and "y \<equiv> unat (data b)"
  shows "\<exists>r. gf_sub a b = Inr r \<and>
           unat (data r) = (if y \<le> x then x - y
                            else if y \<le> x + 18446744069414584321 then x + 18446744069414584321 - y
                            else x + 36893488138829168642 - y)"
proof -
  have bx: "x < 18446744073709551616" and by': "y < 18446744073709551616"
    unfolding x_def y_def by (rule u64_bound)+
  define d1 where "d1 = data a - data b"
  show ?thesis
  proof (cases "y \<le> x")
    case True
    then have "gf_sub a b = Inr \<lparr>data = d1\<rparr>"
      unfolding x_def y_def d1_def
      by (auto simp: gf_sub_def overflowing_sub_eq)
    moreover have "unat d1 = x - y"
      using True unfolding x_def y_def d1_def by (simp add: u64_sub_nat)
    ultimately show ?thesis using True by simp
  next
    case False
    then have s1: "unat d1 = x + 18446744073709551616 - y"
      unfolding x_def y_def d1_def by (simp add: u64_sub_nat)
    define d2 where "d2 = d1 - EPSILON"
    show ?thesis
    proof (cases "y \<le> x + 18446744069414584321")
      case True
      have "gf_sub a b = Inr \<lparr>data = d2\<rparr>"
        using False True s1 unfolding x_def y_def d1_def d2_def
        by (auto simp: gf_sub_def overflowing_sub_eq unat_EPSILON)
      moreover have "unat d2 = x + 18446744069414584321 - y"
        unfolding d2_def using False True s1 bx by'
        by (simp add: u64_sub_nat [of _ EPSILON] unat_EPSILON) arith
      ultimately show ?thesis using False True by simp
    next
      case F2: False
      have ord: "data a < EPSILON - 1" "ORDER < data b"
        using F2 bx by' unfolding x_def y_def
        by (simp_all add: word_less_nat_alt unat_ORDER u64_sub_nat [of EPSILON 1] unat_EPSILON)
      have "gf_sub a b = Inr \<lparr>data = d2 - EPSILON\<rparr>"
        using False F2 s1 ord unfolding x_def y_def d1_def d2_def
        by (auto simp: gf_sub_def overflowing_sub_eq unat_EPSILON)
      moreover have u2: "unat d2 = x + 36893488143124135937 - y"
        unfolding d2_def using False F2 s1 bx by'
        by (simp add: u64_sub_nat [of _ EPSILON] unat_EPSILON) arith
      have "unat (d2 - EPSILON) = x + 36893488138829168642 - y"
        using bx by' F2 by (simp add: u64_sub_nat [of d2 EPSILON] unat_EPSILON u2) arith
      ultimately show ?thesis using False F2 by simp
    qed
  qed
qed

lemma gf_sub_val:
  "\<exists>r. gf_sub a b = Inr r \<and> (unat (data r) + unat (data b)) mod P = unat (data a) mod P"
proof -
  let ?x = "unat (data a)" and ?y = "unat (data b)"
  obtain r where r: "gf_sub a b = Inr r" and
    u: "unat (data r) = (if ?y \<le> ?x then ?x - ?y
                            else if ?y \<le> ?x + 18446744069414584321 then ?x + 18446744069414584321 - ?y
                            else ?x + 36893488138829168642 - ?y)"
    using gf_sub_cases [of a b] by blast
  have "unat (data r) + ?y = ?x \<or> unat (data r) + ?y = ?x + P \<or> unat (data r) + ?y = ?x + P + P"
    using u u64_bound [of "data a"] u64_bound [of "data b"] unfolding P_def
    by (auto split: if_splits)
  then have "(unat (data r) + ?y) mod P = ?x mod P"
    by (elim disjE) simp_all
  then show ?thesis using r by auto
qed

section \<open>Reduction and multiplication\<close>

lemma reduce128_nat_eq:
  fixes hi lo :: u64
  defines "hh \<equiv> unat hi div 4294967296" and "hl \<equiv> unat hi mod 4294967296"
  shows "\<exists>b c. b \<le> 1 \<and> c \<le> 1 \<and>
           unat (data (reduce128 hi lo)) + hh + c * P = unat lo + hl * 4294967295 + b * P"
proof -
  define whh where "whh = drop_bit 32 hi"
  define whl where "whl = hi AND EPSILON"
  define t0' where "t0' = lo - whh"
  define t0 where "t0 = (if unat lo < unat whh then t0' - EPSILON else t0')"
  define t1 where "t1 = whl * EPSILON"
  define t2 where "t2 = (if 18446744073709551616 \<le> unat t0 + unat t1
                         then (t1 + t0) + 0xffffffff else t0 + t1)"
  have r: "reduce128 hi lo = \<lparr>data = t2\<rparr>"
    by (simp add: reduce128_def overflowing_sub_eq Let_def u64_add_overflows
        whh_def whl_def t0'_def t0_def t1_def t2_def add.commute)
  have uhh: "unat whh = hh" by (simp add: whh_def hh_def u64_shr32)
  have uhl: "unat whl = hl" by (simp add: whl_def hl_def u64_and_EPSILON)
  have bhh: "hh < 4294967296"
    unfolding hh_def using u64_bound [of hi] by simp
  have bhl: "hl < 4294967296" unfolding hl_def by simp
  have blo: "unat lo < 18446744073709551616" by (rule u64_bound)
  have ut1: "unat t1 = hl * 4294967295"
    unfolding t1_def using bhl by (simp add: u64_mul_nat uhl unat_EPSILON)
  have ut0': "unat t0' = (if hh \<le> unat lo then unat lo - hh else unat lo + 18446744073709551616 - hh)"
    unfolding t0'_def by (simp add: u64_sub_nat uhh)
  have ut0: "unat t0 = (if hh \<le> unat lo then unat lo - hh else unat lo + 18446744069414584321 - hh)"
    unfolding t0_def using bhh blo ut0'
    by (simp add: uhh u64_sub_nat [of t0' EPSILON] unat_EPSILON) arith
  have bt0: "unat t0 < 18446744073709551616" by (rule u64_bound)
  have s01: "unat (t0 + t1) = (if unat t0 + unat t1 < 18446744073709551616 then unat t0 + unat t1
      else unat t0 + unat t1 - 18446744073709551616)"
    by (rule u64_add_nat)
  have ut2: "unat t2 = (if unat t0 + unat t1 < 18446744073709551616 then unat t0 + unat t1
      else unat t0 + unat t1 - 18446744069414584321)"
  proof (cases "unat t0 + unat t1 < 18446744073709551616")
    case True
    then show ?thesis by (simp add: t2_def s01)
  next
    case False
    then have "t2 = (t0 + t1) + 0xffffffff" by (simp add: t2_def add.commute)
    moreover have "unat ((t0 + t1) + 0xffffffff) = unat t0 + unat t1 - 18446744069414584321"
      using False bt0 bhl ut1 s01 by (simp add: u64_add_nat [of "t0 + t1" "0xffffffff"])
    ultimately show ?thesis using False by simp
  qed
  have "\<exists>b c. b \<le> 1 \<and> c \<le> 1 \<and> unat t2 + hh + c * P = unat lo + hl * 4294967295 + b * P"
  proof (cases "hh \<le> unat lo")
    case True
    show ?thesis
    proof (cases "unat t0 + unat t1 < 18446744073709551616")
      case T2: True
      have "unat t2 + hh + 0 * P = unat lo + hl * 4294967295 + 0 * P"
        using True T2 ut0 ut1 ut2 by simp
      then show ?thesis by (intro exI [of _ 0]) simp
    next
      case F2: False
      have "unat t2 + hh + 1 * P = unat lo + hl * 4294967295 + 0 * P"
        using True F2 ut0 ut1 ut2 by (simp add: P_def)
      then show ?thesis by (intro exI [of _ 0] exI [of _ 1]) simp
    qed
  next
    case False
    show ?thesis
    proof (cases "unat t0 + unat t1 < 18446744073709551616")
      case T2: True
      have "unat t2 + hh + 0 * P = unat lo + hl * 4294967295 + 1 * P"
        using False T2 ut0 ut1 ut2 bhh by (simp add: P_def)
      then show ?thesis by (intro exI [of _ 1] exI [of _ 0]) simp
    next
      case F2: False
      have "unat t2 + hh + 1 * P = unat lo + hl * 4294967295 + 1 * P"
        using False F2 ut0 ut1 ut2 bhh by (simp add: P_def)
      then show ?thesis by (intro exI [of _ 1]) simp
    qed
  qed
  then show ?thesis by (simp add: r)
qed

lemma reduce128_val: "val (reduce128 hi lo) = (unat hi * 18446744073709551616 + unat lo) mod P"
proof -
  define hh where "hh = unat hi div 4294967296"
  define hl where "hl = unat hi mod 4294967296"
  define t where "t = unat (data (reduce128 hi lo))"
  obtain b c where bc: "t + hh + c * P = unat lo + hl * 4294967295 + b * P"
    using reduce128_nat_eq [of hi lo] unfolding hh_def hl_def t_def by blast
  have hi: "unat hi = hh * 4294967296 + hl"
    unfolding hh_def hl_def by simp
  have "unat hi * 18446744073709551616 + unat lo + b * P
          = t + (hh * 4294967297 + hl + c) * P"
    using bc unfolding hi P_def by (simp add: algebra_simps)
  then have "(unat hi * 18446744073709551616 + unat lo + b * P) mod P
          = (t + (hh * 4294967297 + hl + c) * P) mod P"
    by simp
  then have "(unat hi * 18446744073709551616 + unat lo) mod P = t mod P"
    by simp
  then show ?thesis by (simp add: val_def t_def)
qed

lemma half_prod_bound:
  "a < 4294967296 \<Longrightarrow> b < 4294967296 \<Longrightarrow> a * b \<le> (18446744065119617025::nat)"
proof -
  assume "a < 4294967296" "b < 4294967296"
  then have "a \<le> 4294967295" "b \<le> 4294967295" by simp_all
  then have "a * b \<le> 4294967295 * 4294967295" by (rule mult_le_mono)
  then show ?thesis by simp
qed

lemma schoolbook_nat:
  fixes a b :: u64
  defines "al \<equiv> unat a mod 4294967296" and "ah \<equiv> unat a div 4294967296"
      and "bl \<equiv> unat b mod 4294967296" and "bh \<equiv> unat b div 4294967296"
  defines "pl \<equiv> al * bl" and "m1 \<equiv> al * bh" and "m2 \<equiv> ah * bl" and "ph \<equiv> ah * bh"
  defines "carry \<equiv> pl div 4294967296 + m1 mod 4294967296 + m2 mod 4294967296"
  defines "high \<equiv> ph + m1 div 4294967296 + m2 div 4294967296 + carry div 4294967296"
      and "low \<equiv> (carry * 4294967296) mod 18446744073709551616 + pl mod 4294967296"
  shows "high * 18446744073709551616 + low = unat a * unat b"
    and "high < 18446744073709551616" and "low < 18446744073709551616"
    and "carry < 18446744073709551616"
proof -
  have b: "al < 4294967296" "bl < 4294967296" "ah < 4294967296" "bh < 4294967296"
    unfolding al_def bl_def ah_def bh_def
    using u64_bound [of a] u64_bound [of b] by simp_all
  have pb: "pl \<le> 18446744065119617025" "m1 \<le> 18446744065119617025"
     "m2 \<le> 18446744065119617025" "ph \<le> 18446744065119617025"
    unfolding pl_def m1_def m2_def ph_def using b by (simp_all add: half_prod_bound)
  have a: "unat a = ah * 4294967296 + al" and b': "unat b = bh * 4294967296 + bl"
    unfolding al_def ah_def bl_def bh_def by simp_all
  have prod: "unat a * unat b = ph * 18446744073709551616 + (m1 + m2) * 4294967296 + pl"
    unfolding a b' pl_def m1_def m2_def ph_def by (simp add: algebra_simps)
  have cm: "(carry * 4294967296) mod 18446744073709551616 = (carry mod 4294967296) * 4294967296"
    using mult_mod_left [of carry 4294967296 4294967296] by simp
  show "carry < 18446744073709551616" unfolding carry_def using pb by simp
  show eq: "high * 18446744073709551616 + low = unat a * unat b"
  proof -
    define c1 c0 where "c1 = carry div 4294967296" and "c0 = carry mod 4294967296"
    define u1 u0 where "u1 = pl div 4294967296" and "u0 = pl mod 4294967296"
    define v1 v0 where "v1 = m1 div 4294967296" and "v0 = m1 mod 4294967296"
    define w1 w0 where "w1 = m2 div 4294967296" and "w0 = m2 mod 4294967296"
    have e: "carry = c1 * 4294967296 + c0" "pl = u1 * 4294967296 + u0"
         "m1 = v1 * 4294967296 + v0" "m2 = w1 * 4294967296 + w0"
      unfolding c1_def c0_def u1_def u0_def v1_def v0_def w1_def w0_def by simp_all
    have c: "c1 * 4294967296 + c0 = u1 + v0 + w0"
      using e(1) unfolding carry_def u1_def v0_def w0_def by simp
    have "high * 18446744073709551616 + low
        = (ph + v1 + w1 + c1) * 18446744073709551616 + (c0 * 4294967296 + u0)"
      unfolding high_def low_def cm c1_def c0_def u0_def v1_def w1_def by simp
    also have "\<dots> = ph * 18446744073709551616 + (v1 + w1) * 18446744073709551616
                     + (c1 * 4294967296 + c0) * 4294967296 + u0"
      by (simp add: algebra_simps)
    also have "\<dots> = ph * 18446744073709551616 + (v1 + w1) * 18446744073709551616
                     + (u1 + v0 + w0) * 4294967296 + u0"
      by (simp only: c)
    also have "\<dots> = ph * 18446744073709551616 + ((v1 * 4294967296 + v0) + (w1 * 4294967296 + w0)) * 4294967296 + (u1 * 4294967296 + u0)"
      by (simp add: algebra_simps)
    also have "\<dots> = unat a * unat b"
      unfolding prod using e by simp
    finally show ?thesis .
  qed
  show "low < 18446744073709551616" unfolding low_def cm by simp
  show "high < 18446744073709551616"
  proof (rule ccontr)
    assume "\<not> high < 18446744073709551616"
    then have "18446744073709551616 * 18446744073709551616 \<le> high * 18446744073709551616"
      by simp
    then have "18446744073709551616 * 18446744073709551616 \<le> unat a * unat b"
      using eq by simp
    moreover have "unat a * unat b \<le> 18446744073709551615 * 18446744073709551615"
      using u64_bound [of a] u64_bound [of b] by (intro mult_le_mono) simp_all
    ultimately show False by simp
  qed
qed

lemma gf_mul_val: "val (gf_mul x y) = (unat (data x) * unat (data y)) mod P"
proof -
  define a b where "a = data x" and "b = data y"
  define a_low a_high b_low b_high where "a_low = a AND 0xFFFFFFFF" and "a_high = drop_bit 32 a"
    and "b_low = b AND 0xFFFFFFFF" and "b_high = drop_bit 32 b"
  define product_low product_mid1 product_mid2 product_high
    where "product_low = a_low * b_low" and "product_mid1 = a_low * b_high"
      and "product_mid2 = a_high * b_low" and "product_high = a_high * b_high"
  define carry where "carry = drop_bit 32 product_low + (product_mid1 AND 0xFFFFFFFF)
                    + (product_mid2 AND 0xFFFFFFFF)"
  define high where "high = product_high + drop_bit 32 product_mid1 + drop_bit 32 product_mid2
                    + drop_bit 32 carry"
  define low where "low = push_bit 32 carry + (product_low AND 0xFFFFFFFF)"
  have m: "gf_mul x y = reduce128 high low"
    unfolding gf_mul_def Let_def a_def b_def a_low_def a_high_def b_low_def b_high_def
      product_low_def product_mid1_def product_mid2_def product_high_def carry_def high_def low_def
    by (rule refl)
  define al ah bl bh where "al = unat a mod 4294967296" and "ah = unat a div 4294967296"
      and "bl = unat b mod 4294967296" and "bh = unat b div 4294967296"
  define pl m1 m2 ph where "pl = al * bl" and "m1 = al * bh" and "m2 = ah * bl" and "ph = ah * bh"
  define carryn where "carryn = pl div 4294967296 + m1 mod 4294967296 + m2 mod 4294967296"
  define highn where "highn = ph + m1 div 4294967296 + m2 div 4294967296 + carryn div 4294967296"
  define lown where "lown = (carryn * 4294967296) mod 18446744073709551616 + pl mod 4294967296"
  note sb = schoolbook_nat [of a b, folded al_def ah_def bl_def bh_def,
      folded pl_def m1_def m2_def ph_def, folded carryn_def, folded highn_def lown_def]
  have bnd: "al < 4294967296" "bl < 4294967296" "ah < 4294967296" "bh < 4294967296"
    unfolding al_def bl_def ah_def bh_def
    using u64_bound [of a] u64_bound [of b] by simp_all
  have pb: "pl \<le> 18446744065119617025" "m1 \<le> 18446744065119617025"
     "m2 \<le> 18446744065119617025" "ph \<le> 18446744065119617025"
    unfolding pl_def m1_def m2_def ph_def using bnd by (simp_all add: half_prod_bound)
  have u: "unat a_low = al" "unat a_high = ah" "unat b_low = bl" "unat b_high = bh"
    unfolding a_low_def a_high_def b_low_def b_high_def al_def ah_def bl_def bh_def
    by (simp_all add: u64_and_lit u64_shr32)
  have up: "unat product_low = pl" "unat product_mid1 = m1" "unat product_mid2 = m2"
      "unat product_high = ph"
    unfolding product_low_def product_mid1_def product_mid2_def product_high_def
    using pb unfolding pl_def m1_def m2_def ph_def
    by (simp_all add: u64_mul_nat u)
  have uc: "unat carry = carryn"
  proof -
    define c1 where "c1 = drop_bit 32 product_low + (product_mid1 AND 0xFFFFFFFF)"
    have "unat c1 = pl div 4294967296 + m1 mod 4294967296"
      unfolding c1_def using pb by (simp add: u64_add_nat u64_shr32 u64_and_lit up)
    moreover have "carry = c1 + (product_mid2 AND 0xFFFFFFFF)"
      by (simp add: carry_def c1_def)
    ultimately show ?thesis
      using pb by (simp add: u64_add_nat [of c1] u64_and_lit up carryn_def)
  qed
  have uh: "unat high = highn"
  proof -
    define h1 where "h1 = product_high + drop_bit 32 product_mid1"
    define h2 where "h2 = h1 + drop_bit 32 product_mid2"
    have hb: "highn < 18446744073709551616" by (rule sb(2))
    have 1: "unat h1 = ph + m1 div 4294967296"
      unfolding h1_def using hb unfolding highn_def by (simp add: u64_add_nat u64_shr32 up)
    have 2: "unat h2 = ph + m1 div 4294967296 + m2 div 4294967296"
      unfolding h2_def using hb unfolding highn_def by (simp add: u64_add_nat [of h1] u64_shr32 up 1)
    have "high = h2 + drop_bit 32 carry" by (simp add: high_def h1_def h2_def)
    then show ?thesis
      using hb unfolding highn_def by (simp add: u64_add_nat [of h2] u64_shr32 uc 2)
  qed
  have ul: "unat low = lown"
    using sb(3) unfolding low_def lown_def
    by (simp add: u64_add_nat [of "push_bit 32 carry"] u64_shl32 u64_and_lit up uc)
  have "val (gf_mul x y) = (unat high * 18446744073709551616 + unat low) mod P"
    by (simp add: m reduce128_val)
  also have "\<dots> = (unat a * unat b) mod P"
    by (simp only: uh ul sb(1))
  finally show ?thesis by (simp add: a_def b_def)
qed

section \<open>Claims about the field operations\<close>

text \<open>
  Claim C3. For every pair of 64-bit words \<open>hi\<close>, \<open>lo\<close> the element returned by
  \<^verbatim>\<open>reduce128(hi, lo)\<close> is congruent to \<open>hi * 2 ^ 64 + lo\<close> modulo
  \<open>P = 2 ^ 64 - 2 ^ 32 + 1\<close>: its stored word, possibly not canonical, has the same residue.
\<close>

theorem reduce128_congruent:
  "unat (data (reduce128 hi lo)) mod P = (unat hi * 2 ^ 64 + unat lo) mod P"
  using reduce128_val [of hi lo] by (simp add: val_def)

text \<open>
  Claim C5. Unary minus negates the stored word modulo \<open>2 ^ 64\<close>, so \<open>a + (- a)\<close> wraps to
  \<open>0\<close> with the carry set and the carry correction adds \<open>EPSILON\<close>: for \<open>a = 1\<close> the sum is
  stored as \<open>0xFFFFFFFF\<close>, which is neither \<open>0\<close> nor congruent to \<open>0\<close> modulo \<open>P\<close>.
\<close>

theorem add_negate_one:
  "gf_add \<lparr>data = 1\<rparr> (gf_neg \<lparr>data = 1\<rparr>) = Inr \<lparr>data = 0xFFFFFFFF\<rparr>
   \<and> val \<lparr>data = 0xFFFFFFFF\<rparr> = 4294967295"
  by (simp add: gf_add_def gf_neg_def overflowing_add_def EPSILON_def ORDER_def val_def P_def)

text \<open>
  Claim C6, as stated: \<^verbatim>\<open>from_canonical(p - 1) + from_canonical(1)\<close> is stored as \<open>0\<close>.
  The sum does not overflow 64 bits, so no correction is applied and the stored word is
  \<open>p\<close> itself.
\<close>

theorem boundary_add_stores_order_cex:
  "gf_add (from_canonical_u64 (0xFFFFFFFF00000001 - 1)) (from_canonical_u64 1)
     = Inr \<lparr>data = 0xFFFFFFFF00000001\<rparr>
   \<and> (0xFFFFFFFF00000001 :: u64) \<noteq> 0"
  by code_simp

text \<open>
  Claim C6, amended: \<^verbatim>\<open>from_canonical(p - 1) + from_canonical(1)\<close> succeeds and is stored
  as \<open>p = 0xFFFFFFFF00000001\<close>, the non-canonical representation of zero (its residue
  modulo \<open>P\<close> is \<open>0\<close>).
\<close>

theorem boundary_add_noncanonical_zero:
  "gf_add (from_canonical_u64 (ORDER - 1)) (from_canonical_u64 1) = Inr (from_canonical_u64 ORDER)
   \<and> val (from_canonical_u64 ORDER) = 0"
  by (simp add: gf_add_def overflowing_add_def from_canonical_u64_def EPSILON_def ORDER_def
      val_def P_def)

text \<open>
  Claim C7, as stated: every operation gives identical results with \<^verbatim>\<open>from_canonical(p)\<close>
  and with canonical \<open>0\<close>. Addition and multiplication store different words for the two,
  and equality, which compares the stored words, tells them apart.
\<close>

theorem noncanonical_zero_cex:
  "gf_add (from_canonical_u64 ORDER) (from_canonical_u64 0) = Inr \<lparr>data = 0xFFFFFFFF00000001\<rparr>
   \<and> gf_add (from_canonical_u64 0) (from_canonical_u64 0) = Inr \<lparr>data = 0\<rparr>
   \<and> gf_mul (from_canonical_u64 ORDER) (from_canonical_u64 1) = \<lparr>data = 0xFFFFFFFF00000001\<rparr>
   \<and> gf_mul (from_canonical_u64 0) (from_canonical_u64 1) = \<lparr>data = 0\<rparr>
   \<and> gf_eq (from_canonical_u64 ORDER) (from_canonical_u64 0) = False
   \<and> gf_eq (from_canonical_u64 0) (from_canonical_u64 0) = True"
  by code_simp

lemma mod_add_cancel_nat:
  fixes a b c m :: nat
  assumes "(a + c) mod m = (b + c) mod m"
  shows "a mod m = b mod m"
proof -
  have "(int a + int c) mod int m = (int b + int c) mod int m"
    using assms by (metis of_nat_add of_nat_mod)
  then have "int m dvd (int a + int c) - (int b + int c)"
    by (simp add: mod_eq_dvd_iff)
  then have "int a mod int m = int b mod int m"
    by (simp add: mod_eq_dvd_iff)
  then show ?thesis
    by (metis of_nat_mod of_nat_eq_iff)
qed

text \<open>
  Claim C7, amended: for addition, subtraction, multiplication and squaring, and every
  other operand \<open>x\<close>, using \<^verbatim>\<open>from_canonical(p)\<close> in place of canonical \<open>0\<close>, in either
  operand position, gives a result with the same residue modulo \<open>P\<close> (the stored words may
  differ), and no assertion fails.
\<close>

theorem noncanonical_zero_congruent:
  "(\<exists>r r'. gf_add (from_canonical_u64 ORDER) x = Inr r \<and> gf_add (from_canonical_u64 0) x = Inr r'
       \<and> val r = val r')
   \<and> (\<exists>r r'. gf_add x (from_canonical_u64 ORDER) = Inr r \<and> gf_add x (from_canonical_u64 0) = Inr r'
       \<and> val r = val r')
   \<and> (\<exists>r r'. gf_sub (from_canonical_u64 ORDER) x = Inr r \<and> gf_sub (from_canonical_u64 0) x = Inr r'
       \<and> val r = val r')
   \<and> (\<exists>r r'. gf_sub x (from_canonical_u64 ORDER) = Inr r \<and> gf_sub x (from_canonical_u64 0) = Inr r'
       \<and> val r = val r')
   \<and> val (gf_mul (from_canonical_u64 ORDER) x) = val (gf_mul (from_canonical_u64 0) x)
   \<and> val (gf_mul x (from_canonical_u64 ORDER)) = val (gf_mul x (from_canonical_u64 0))
   \<and> val (square (from_canonical_u64 ORDER)) = val (square (from_canonical_u64 0))"
proof -
  let ?p = "from_canonical_u64 ORDER" and ?z = "from_canonical_u64 0"
  have up: "unat (data ?p) = P" and uz: "unat (data ?z) = 0"
    by (simp_all add: from_canonical_u64_def unat_ORDER P_def)
  have a1: "\<exists>r r'. gf_add ?p x = Inr r \<and> gf_add ?z x = Inr r' \<and> val r = val r'"
    using gf_add_val [of ?p x] gf_add_val [of ?z x] by (auto simp: up uz)
  have a2: "\<exists>r r'. gf_add x ?p = Inr r \<and> gf_add x ?z = Inr r' \<and> val r = val r'"
    using gf_add_val [of x ?p] gf_add_val [of x ?z] by (auto simp: up uz)
  have s1: "\<exists>r r'. gf_sub ?p x = Inr r \<and> gf_sub ?z x = Inr r' \<and> val r = val r'"
  proof -
    obtain r where r: "gf_sub ?p x = Inr r" "(unat (data r) + unat (data x)) mod P = P mod P"
      using gf_sub_val [of ?p x] by (auto simp: up)
    obtain r' where r': "gf_sub ?z x = Inr r'" "(unat (data r') + unat (data x)) mod P = 0 mod P"
      using gf_sub_val [of ?z x] by (auto simp: uz)
    have "(unat (data r) + unat (data x)) mod P = (unat (data r') + unat (data x)) mod P"
      using r(2) r'(2) by simp
    then have "val r = val r'" unfolding val_def by (rule mod_add_cancel_nat)
    then show ?thesis using r(1) r'(1) by blast
  qed
  have s2: "\<exists>r r'. gf_sub x ?p = Inr r \<and> gf_sub x ?z = Inr r' \<and> val r = val r'"
  proof -
    obtain r where r: "gf_sub x ?p = Inr r" "(unat (data r) + P) mod P = unat (data x) mod P"
      using gf_sub_val [of x ?p] by (auto simp: up)
    obtain r' where r': "gf_sub x ?z = Inr r'" "(unat (data r') + 0) mod P = unat (data x) mod P"
      using gf_sub_val [of x ?z] by (auto simp: uz)
    have "val r = val r'" using r(2) r'(2) by (simp add: val_def)
    then show ?thesis using r(1) r'(1) by blast
  qed
  have m1: "val (gf_mul ?p x) = val (gf_mul ?z x)"
    by (simp only: gf_mul_val up uz) simp
  have m2: "val (gf_mul x ?p) = val (gf_mul x ?z)"
    by (simp only: gf_mul_val up uz) simp
  have sq: "val (square ?p) = val (square ?z)"
    unfolding square_def by (simp only: gf_mul_val up uz) simp
  from a1 a2 s1 s2 m1 m2 sq show ?thesis by blast
qed

section \<open>The 96-bit, 128-bit and 160-bit reductions\<close>

lemma u128_bound: "unat (x::u128) < 340282366920938463463374607431768211456"
  using unsigned_less [of x, where 'a = nat] by simp

lemma u32_bound: "unat (x::u32) < 4294967296"
  using unsigned_less [of x, where 'a = nat] by simp

lemma u128_add_nat:
  "unat (a + b :: u128) =
     (if unat a + unat b < 340282366920938463463374607431768211456 then unat a + unat b
      else unat a + unat b - 340282366920938463463374607431768211456)"
  using unat_plus_if' [of a b] by simp

lemma unat_ucast_64_128: "unat (ucast (x::u64) :: u128) = unat x"
proof -
  have "unat (ucast x :: u128) = take_bit 128 (unat x)"
    by (subst unsigned_ucast_eq) simp
  also have "\<dots> = unat x"
    using u64_bound [of x] by (simp add: take_bit_eq_mod)
  finally show ?thesis .
qed

lemma unat_ucast_32_128: "unat (ucast (x::u32) :: u128) = unat x"
proof -
  have "unat (ucast x :: u128) = take_bit 128 (unat x)"
    by (subst unsigned_ucast_eq) simp
  also have "\<dots> = unat x"
    using u32_bound [of x] by (simp add: take_bit_eq_mod)
  finally show ?thesis .
qed

lemma unat_ucast_128_64: "unat (ucast (x::u128) :: u64) = unat x mod 18446744073709551616"
proof -
  have "unat (ucast x :: u64) = take_bit 64 (unat x)"
    by (subst unsigned_ucast_eq) simp
  then show ?thesis by (simp add: take_bit_eq_mod)
qed

lemma unat_ucast_128_32: "unat (ucast (x::u128) :: u32) = unat x mod 4294967296"
proof -
  have "unat (ucast x :: u32) = take_bit 32 (unat x)"
    by (subst unsigned_ucast_eq) simp
  then show ?thesis by (simp add: take_bit_eq_mod)
qed

lemma u128_shr64: "unat (drop_bit 64 (x::u128)) = unat x div 18446744073709551616"
  by (subst unat_drop_bit_eq) (simp add: drop_bit_eq_div)

lemma u128_shl64:
  "unat (push_bit 64 (x::u128)) =
     (unat x * 18446744073709551616) mod 340282366920938463463374607431768211456"
proof -
  have "unat (push_bit 64 x) = take_bit 128 (push_bit 64 (unat x))"
    by (subst unsigned_push_bit_eq) simp
  then show ?thesis by (simp add: take_bit_eq_mod push_bit_eq_mult)
qed

lemma u128_and_lit: "unat ((x::u128) AND 0xFFFFFFFFFFFFFFFF) = unat x mod 18446744073709551616"
proof -
  have "(0xFFFFFFFFFFFFFFFF :: u128) = mask 64"
    by (simp add: mask_eq_exp_minus_1)
  then have "x AND 0xFFFFFFFFFFFFFFFF = take_bit 64 x"
    by (simp add: take_bit_eq_mask)
  then have "unat (x AND 0xFFFFFFFFFFFFFFFF) = take_bit 64 (unat x)"
    by (simp only: unsigned_take_bit_eq)
  then show ?thesis by (simp add: take_bit_eq_mod)
qed

lemma from_noncanonical_u128_val: "val (from_noncanonical_u128 n) = unat n mod P"
proof -
  have 1: "unat (ucast (drop_bit 64 n) :: u64) = unat n div 18446744073709551616"
    using u128_bound [of n] by (simp add: unat_ucast_128_64 u128_shr64)
  have 2: "unat (ucast (n AND 0xFFFFFFFFFFFFFFFF) :: u64) = unat n mod 18446744073709551616"
    by (simp add: unat_ucast_128_64 u128_and_lit)
  show ?thesis
    unfolding from_noncanonical_u128_def reduce128_val 1 2 by simp
qed

lemma from_noncanonical_u96_val:
  "val (from_noncanonical_u96 n_lo n_hi) = (unat n_hi * 18446744073709551616 + unat n_lo) mod P"
proof -
  define n where "n = push_bit 64 (ucast n_hi :: u128) + ucast n_lo"
  have h: "unat (push_bit 64 (ucast n_hi :: u128)) = unat n_hi * 18446744073709551616"
    using u32_bound [of n_hi] by (simp add: u128_shl64 unat_ucast_32_128)
  have "unat n = unat n_hi * 18446744073709551616 + unat n_lo"
    unfolding n_def using u32_bound [of n_hi] u64_bound [of n_lo]
    by (simp add: u128_add_nat h unat_ucast_64_128)
  then show ?thesis
    by (simp add: from_noncanonical_u96_def from_noncanonical_u128_val flip: n_def)
qed

lemma mod_mult_add_left:
  fixes a k b m :: nat
  shows "(a mod m * k + b) mod m = (a * k + b) mod m"
proof -
  have "(a mod m * k + b) mod m = ((a mod m * k) mod m + b) mod m"
    by (simp only: mod_add_left_eq)
  also have "(a mod m * k) mod m = (a * k) mod m"
    by (rule mod_mult_left_eq)
  also have "((a * k) mod m + b) mod m = (a * k + b) mod m"
    by (rule mod_add_left_eq)
  finally show ?thesis .
qed

lemma reduce_u160_val:
  "val (reduce_u160 (n_lo, n_hi))
     = (unat n_hi * 340282366920938463463374607431768211456 + unat n_lo) mod P"
proof -
  define n_lo_hi where "n_lo_hi = (ucast (drop_bit 64 n_lo) :: u64)"
  define n_lo_lo where "n_lo_lo = (ucast n_lo :: u64)"
  define reduced_hi where "reduced_hi = to_noncanonical_u64 (from_noncanonical_u96 n_lo_hi n_hi)"
  define reduced128 where "reduced128 = push_bit 64 (ucast reduced_hi :: u128) + ucast n_lo_lo"
  have r: "reduce_u160 (n_lo, n_hi) = from_noncanonical_u128 reduced128"
    by (simp add: reduce_u160_def Let_def n_lo_hi_def n_lo_lo_def reduced_hi_def reduced128_def)
  have 1: "unat n_lo_hi = unat n_lo div 18446744073709551616"
    unfolding n_lo_hi_def using u128_bound [of n_lo] by (simp add: unat_ucast_128_64 u128_shr64)
  have 2: "unat n_lo_lo = unat n_lo mod 18446744073709551616"
    unfolding n_lo_lo_def by (simp add: unat_ucast_128_64)
  have 3: "unat reduced_hi mod P
      = (unat n_hi * 18446744073709551616 + unat n_lo div 18446744073709551616) mod P"
    using from_noncanonical_u96_val [of n_lo_hi n_hi]
    by (simp add: reduced_hi_def to_noncanonical_u64_def val_def 1)
  have h: "unat (push_bit 64 (ucast reduced_hi :: u128)) = unat reduced_hi * 18446744073709551616"
    using u64_bound [of reduced_hi] by (simp add: u128_shl64 unat_ucast_64_128)
  have 4: "unat reduced128 = unat reduced_hi * 18446744073709551616 + unat n_lo_lo"
    unfolding reduced128_def using u64_bound [of reduced_hi] u64_bound [of n_lo_lo]
    by (simp add: u128_add_nat h unat_ucast_64_128)
  have "val (reduce_u160 (n_lo, n_hi))
      = (unat reduced_hi * 18446744073709551616 + unat n_lo_lo) mod P"
    by (simp add: r from_noncanonical_u128_val 4)
  also have "\<dots> = ((unat reduced_hi mod P) * 18446744073709551616 + unat n_lo_lo) mod P"
    by (simp only: mod_mult_add_left)
  also have "\<dots> = ((unat n_hi * 18446744073709551616 + unat n_lo div 18446744073709551616)
                     * 18446744073709551616 + unat n_lo_lo) mod P"
    unfolding 3 by (simp only: mod_mult_add_left)
  also have "(unat n_hi * 18446744073709551616 + unat n_lo div 18446744073709551616)
                     * 18446744073709551616 + unat n_lo_lo
      = unat n_hi * 340282366920938463463374607431768211456 + unat n_lo"
    unfolding 2 by (simp add: algebra_simps)
  finally show ?thesis .
qed

text \<open>
  Claim C10. For every 160-bit accumulator, a pair of a 128-bit word \<open>lo\<close> and a 32-bit
  word \<open>hi\<close> (in particular every pair that \<^verbatim>\<open>add_u160_u128\<close> builds), \<^verbatim>\<open>reduce_u160\<close>
  returns a field element congruent to \<open>hi * 2 ^ 128 + lo\<close> modulo \<open>P\<close>.
\<close>

theorem reduce_u160_congruent:
  "unat (data (reduce_u160 (lo, hi))) mod P = (unat hi * 2 ^ 128 + unat lo) mod P"
  using reduce_u160_val [of lo hi] by (simp add: val_def)

section \<open>The fixed-length hash\<close>






section \<open>The fast partial-round step and the generic MDS layer\<close>

lemma u128_add_overflows:
  "((- 1) - b < (a::u128)) = (340282366920938463463374607431768211456 \<le> unat a + unat b)"
proof -
  have m: "unat (- 1 :: u128) = 340282366920938463463374607431768211455"
    by (simp add: unsigned_minus_1_eq_mask mask_eq_exp_minus_1)
  have "(b \<le> - 1)" by simp
  then have "unat ((- 1 :: u128) - b) = 340282366920938463463374607431768211455 - unat b"
    by (simp add: unat_sub m)
  then show ?thesis
    using u128_bound [of a] u128_bound [of b] by (simp add: word_less_nat_alt) arith
qed

lemma u32_add_one: "unat (hi::u32) < 4294967295 \<Longrightarrow> unat (hi + 1) = unat hi + 1"
  using unat_plus_if' [of hi 1] by simp

lemma add_u160_u128_val:
  assumes "unat hi < 4294967295"
  shows "u160_val (add_u160_u128 (lo, hi) y) = u160_val (lo, hi) + unat y"
    and "unat (snd (add_u160_u128 (lo, hi) y)) \<le> unat hi + 1"
proof -
  show "u160_val (add_u160_u128 (lo, hi) y) = u160_val (lo, hi) + unat y"
  proof (cases "340282366920938463463374607431768211456 \<le> unat lo + unat y")
    case True
    then show ?thesis
      using assms
      by (simp add: add_u160_u128_def u160_val_def u128_add_overflows u128_add_nat u32_add_one)
  next
    case False
    then show ?thesis
      by (simp add: add_u160_u128_def u160_val_def u128_add_overflows u128_add_nat)
  qed
  show "unat (snd (add_u160_u128 (lo, hi) y)) \<le> unat hi + 1"
    using assms by (simp add: add_u160_u128_def u32_add_one)
qed

lemma fold_add_u160:
  assumes "unat (snd acc) + length xs < 4294967296"
  shows "u160_val (fold (\<lambda>i a. add_u160_u128 a (g i)) xs acc)
           = u160_val acc + sum_list (map (\<lambda>i. unat (g i)) xs)
         \<and> unat (snd (fold (\<lambda>i a. add_u160_u128 a (g i)) xs acc)) \<le> unat (snd acc) + length xs"
  using assms
proof (induction xs arbitrary: acc)
  case Nil
  then show ?case by simp
next
  case (Cons x xs)
  obtain lo hi where acc: "acc = (lo, hi)" by (cases acc)
  have hi: "unat hi < 4294967295" using Cons.prems acc by simp
  let ?a = "add_u160_u128 (lo, hi) (g x)"
  have 1: "u160_val ?a = u160_val (lo, hi) + unat (g x)" and 2: "unat (snd ?a) \<le> unat hi + 1"
    using add_u160_u128_val [OF hi] by simp_all
  have "unat (snd ?a) + length xs < 4294967296" using 2 Cons.prems acc by simp
  from Cons.IH [OF this] show ?case
    using 1 2 acc by simp
qed

lemma u128_mul_u64:
  "unat ((ucast (a::u64) :: u128) * ucast (b::u64)) = unat a * unat b"
proof -
  have "unat a \<le> 18446744073709551615" "unat b \<le> 18446744073709551615"
    using u64_bound [of a] u64_bound [of b] by simp_all
  then have "unat a * unat b \<le> 18446744073709551615 * 18446744073709551615"
    by (rule mult_le_mono)
  then have "unat (ucast a :: u128) * unat (ucast b :: u128) < 2 ^ LENGTH(128)"
    by (simp add: unat_ucast_64_128)
  then have "unat ((ucast a :: u128) * ucast b) = unat (ucast a :: u128) * unat (ucast b :: u128)"
    by (simp only: unat_mult_lem)
  then show ?thesis by (simp add: unat_ucast_64_128)
qed

lemma foldE_cong:
  "(\<And>x s. x \<in> set xs \<Longrightarrow> f x s = g x s) \<Longrightarrow> foldE f xs s = foldE g xs s"
  by (induction xs arbitrary: s) (auto split: sum.splits)

lemma foldE_update:
  assumes "\<And>i. i \<in> set xs \<Longrightarrow> F i = Inr (G i)"
  shows "foldE (\<lambda>i res. case F i of Inl e \<Rightarrow> Inl e | Inr v \<Rightarrow> Inr (res[i := v])) xs res0
           = Inr (fold (\<lambda>i res. res[i := G i]) xs res0)"
  using assms by (induction xs arbitrary: res0) auto

lemma fold_update_upt:
  assumes "m \<le> k" and "k \<le> length res0"
  shows "fold (\<lambda>i res. res[i := G i]) [m..<k] res0 = take m res0 @ map G [m..<k] @ drop k res0"
  using assms
proof (induction k)
  case 0
  then show ?case by simp
next
  case (Suc k)
  show ?case
  proof (cases "m = Suc k")
    case True
    then show ?thesis by simp
  next
    case False
    then have mk: "m \<le> k" using Suc.prems by simp
    have kl: "k < length res0" using Suc.prems by simp
    have ih: "fold (\<lambda>i res. res[i := G i]) [m..<k] res0 = take m res0 @ map G [m..<k] @ drop k res0"
      using Suc.IH mk kl by simp
    have "(take m res0 @ map G [m..<k] @ drop k res0)[k := G k]
            = take m res0 @ map G [m..<k] @ (drop k res0)[0 := G k]"
      using mk kl by (simp add: list_update_append)
    also have "(drop k res0)[0 := G k] = G k # drop (Suc k) res0"
      using kl by (metis Cons_nth_drop_Suc list_update_code(2))
    finally show ?thesis
      using mk ih by simp
  qed
qed

lemma multiply_accumulate_val:
  "\<exists>v. multiply_accumulate acc x y = Inr v
       \<and> val v = (unat (data acc) + unat (data x) * unat (data y)) mod P"
proof -
  obtain v where v: "gf_add acc (gf_mul x y) = Inr v"
      "val v = (unat (data acc) + unat (data (gf_mul x y))) mod P"
    using gf_add_val [of acc "gf_mul x y"] by blast
  have "(unat (data acc) + unat (data (gf_mul x y))) mod P
          = (unat (data acc) + unat (data (gf_mul x y)) mod P) mod P"
    by (simp only: mod_add_right_eq)
  also have "unat (data (gf_mul x y)) mod P = (unat (data x) * unat (data y)) mod P"
    using gf_mul_val [of x y] by (simp add: val_def)
  also have "(unat (data acc) + (unat (data x) * unat (data y)) mod P) mod P
          = (unat (data acc) + unat (data x) * unat (data y)) mod P"
    by (simp only: mod_add_right_eq)
  finally show ?thesis using v by (auto simp: multiply_accumulate_def)
qed

lemma copy_back_all:
  assumes "length result = n" and "length state = n"
  shows "copy_back n result state = result"
proof -
  have "copy_back n result state = take 0 state @ map (\<lambda>i. result ! i) [0..<n] @ drop n state"
    unfolding copy_back_def using assms by (intro fold_update_upt) simp_all
  also have "\<dots> = map (\<lambda>i. result ! i) [0..<length result]"
    using assms by simp
  also have "\<dots> = result" by (rule map_nth)
  finally show ?thesis .
qed

lemma mds_partial_layer_fast_lanes:
  assumes "length state = 12"
  shows "\<exists>res. mds_partial_layer_fast cfg r state = Inr res
           \<and> map val res =
               (sum_list (map (\<lambda>i. unat (data (state ! i))
                                      * unat (FAST_PARTIAL_ROUND_W_HATS cfg r (i - 1))) [1..<12])
                  + unat (data (state ! 0))
                      * unat (MDS_MATRIX_CIRC cfg 0 + MDS_MATRIX_DIAG cfg 0)) mod P
               # map (\<lambda>i. (unat (data (state ! i))
                               + unat (data (state ! 0))
                                   * unat (FAST_PARTIAL_ROUND_VS cfg r (i - 1))) mod P) [1..<12]"
proof -
  define g where "g = (\<lambda>i. (ucast (to_noncanonical_u64 (state ! i)) :: u128)
                             * ucast (FAST_PARTIAL_ROUND_W_HATS cfg r (i - 1)))"
  define d_sum where "d_sum = fold (\<lambda>i acc. add_u160_u128 acc (g i)) [1..<12] (0, 0)"
  define s0 where "s0 = (ucast (to_noncanonical_u64 (state ! 0)) :: u128)"
  define mds0to0 where "mds0to0 = (ucast (MDS_MATRIX_CIRC cfg 0 + MDS_MATRIX_DIAG cfg 0) :: u128)"
  define d_sum' where "d_sum' = add_u160_u128 d_sum (s0 * mds0to0)"
  define d where "d = reduce_u160 d_sum'"
  define F where "F = (\<lambda>i. multiply_accumulate (state ! i) (state ! 0)
                              (from_canonical_u64 (FAST_PARTIAL_ROUND_VS cfg r (i - 1))))"
  define G where "G = (\<lambda>i. projr (F i))"
  define result0 where "result0 = (replicate SPONGE_WIDTH zero_elem)[0 := d]"
  define result where "result = fold (\<lambda>i res. res[i := G i]) [1..<12] result0"
  have FG: "F i = Inr (G i)" and Gval: "val (G i) = (unat (data (state ! i))
                               + unat (data (state ! 0))
                                   * unat (FAST_PARTIAL_ROUND_VS cfg r (i - 1))) mod P" for i
    using multiply_accumulate_val [of "state ! i" "state ! 0"
        "from_canonical_u64 (FAST_PARTIAL_ROUND_VS cfg r (i - 1))"]
    unfolding G_def F_def by (auto simp: from_canonical_u64_def)
  have unf: "mds_partial_layer_fast cfg r state =
      (case foldE (\<lambda>i res. if i < SPONGE_WIDTH
                              then (case F i of Inl e \<Rightarrow> Inl e | Inr v \<Rightarrow> Inr (res[i := v]))
                              else Inr res) [1..<12]
              ((replicate SPONGE_WIDTH zero_elem)
                 [0 := reduce_u160 (add_u160_u128
                         (fold (\<lambda>i acc. if i < SPONGE_WIDTH then add_u160_u128 acc (g i) else acc)
                            [1..<12] (0, 0))
                         (s0 * mds0to0))]) of
         Inl e \<Rightarrow> Inl e
       | Inr result \<Rightarrow> Inr (copy_back 12 result state))"
    unfolding mds_partial_layer_fast_def Let_def F_def g_def s0_def mds0to0_def by (rule refl)
  have fold_eq: "fold (\<lambda>i acc. if i < SPONGE_WIDTH then add_u160_u128 acc (g i) else acc)
                   [1..<12] (0, 0) = d_sum"
    unfolding d_sum_def by (rule fold_cong) (simp_all add: SPONGE_WIDTH_def)
  have foldE_eq: "foldE (\<lambda>i res. if i < SPONGE_WIDTH
                              then (case F i of Inl e \<Rightarrow> Inl e | Inr v \<Rightarrow> Inr (res[i := v]))
                              else Inr res) [1..<12] result0
             = foldE (\<lambda>i res. case F i of Inl e \<Rightarrow> Inl e | Inr v \<Rightarrow> Inr (res[i := v]))
                 [1..<12] result0"
    by (rule foldE_cong) (simp add: SPONGE_WIDTH_def)
  have foldE_res: "foldE (\<lambda>i res. case F i of Inl e \<Rightarrow> Inl e | Inr v \<Rightarrow> Inr (res[i := v]))
                 [1..<12] result0 = Inr result"
    unfolding result_def by (rule foldE_update) (rule FG)
  have res: "result = d # map G [1..<12]"
  proof -
    have "result = take 1 result0 @ map G [1..<12] @ drop 12 result0"
      unfolding result_def by (rule fold_update_upt) (simp_all add: result0_def SPONGE_WIDTH_def)
    moreover have "result0 = d # replicate 11 zero_elem"
      unfolding result0_def SPONGE_WIDTH_def by (simp add: eval_nat_numeral)
    ultimately show ?thesis by simp
  qed
  have len: "length result = 12" unfolding res by simp
  have fast: "mds_partial_layer_fast cfg r state = Inr result"
    unfolding unf fold_eq
    unfolding d_sum'_def [symmetric] d_def [symmetric] result0_def [symmetric]
    unfolding foldE_eq foldE_res
    using copy_back_all [of result 12 state] len assms by simp
  have gi: "unat (g i) = unat (data (state ! i)) * unat (FAST_PARTIAL_ROUND_W_HATS cfg r (i - 1))"
    for i
    unfolding g_def by (simp add: u128_mul_u64 to_noncanonical_u64_def)
  have ds: "u160_val d_sum = sum_list (map (\<lambda>i. unat (g i)) [1..<12])"
      and dh: "unat (snd d_sum) \<le> 11"
    using fold_add_u160 [of "(0, 0)" "[1..<12]" g] unfolding d_sum_def
    by (simp_all add: u160_val_def)
  obtain lo hi where lh: "d_sum = (lo, hi)" by (cases d_sum)
  have "unat hi < 4294967295" using dh lh by simp
  then have "u160_val d_sum' = u160_val d_sum + unat (s0 * mds0to0)"
    unfolding d_sum'_def lh by (rule add_u160_u128_val)
  then have ds': "u160_val d_sum' = sum_list (map (\<lambda>i. unat (g i)) [1..<12])
      + unat (data (state ! 0)) * unat (MDS_MATRIX_CIRC cfg 0 + MDS_MATRIX_DIAG cfg 0)"
    by (simp add: ds s0_def mds0to0_def u128_mul_u64 to_noncanonical_u64_def)
  have "val d = u160_val d_sum' mod P"
    unfolding d_def using reduce_u160_val [of "fst d_sum'" "snd d_sum'"]
    by (simp add: u160_val_def)
  then have dval: "val d = (sum_list (map (\<lambda>i. unat (data (state ! i))
                                      * unat (FAST_PARTIAL_ROUND_W_HATS cfg r (i - 1))) [1..<12])
                  + unat (data (state ! 0))
                      * unat (MDS_MATRIX_CIRC cfg 0 + MDS_MATRIX_DIAG cfg 0)) mod P"
    by (simp only: ds' gi)
  have "map val result = val d # map (\<lambda>i. val (G i)) [1..<12]"
    unfolding res by (simp add: comp_def)
  then show ?thesis
    using fast dval Gval by simp
qed

lemma ucast_64_128_64: "(ucast (ucast (x::u64) :: u128) :: u64) = x"
  by (simp add: ucast_up_ucast_id is_up)

lemma drop64_ucast_64_128: "drop_bit 64 (ucast (x::u64) :: u128) = 0"
proof -
  have "unat (drop_bit 64 (ucast x :: u128)) = 0"
    using u64_bound [of x] by (simp add: u128_shr64 unat_ucast_64_128)
  then show ?thesis by (simp add: unat_eq_0)
qed

lemma mds_layer_e2_lane1:
  "\<exists>b. mds_layer cfg e2 = Inr b \<and> val (b ! 1) = unat (MDS_MATRIX_CIRC cfg 1) mod P"
proof -
  have "\<exists>b. mds_layer cfg e2 = Inr b
          \<and> b ! 1 = from_noncanonical_u96 (MDS_MATRIX_CIRC cfg 1) 0"
    by (simp add: mds_layer_def mds_row_shf_def e2_def SPONGE_WIDTH_def Let_def upt_rec
        to_noncanonical_u64_def ucast_64_128_64 drop64_ucast_64_128)
  then show ?thesis
    by (auto simp: from_noncanonical_u96_val)
qed

lemma sbox_zero_lane: "e2[0 := sbox_monomial (e2 ! 0)] = e2"
  by code_simp

text \<open>Whatever the tables are, the two layers disagree on lane 1 of the state \<open>e2\<close> as soon as
  the circulant entry \<^verbatim>\<open>MDS_MATRIX_CIRC[1]\<close> is not a multiple of \<open>P\<close>.\<close>

lemma fast_differs_from_generic_any_tables:
  assumes "unat (MDS_MATRIX_CIRC cfg 1) mod P \<noteq> 0"
  shows "mds_partial_layer_fast cfg r (e2[0 := sbox_monomial (e2 ! 0)])
           \<noteq> mds_layer cfg (e2[0 := sbox_monomial (e2 ! 0)])"
proof -
  have len: "length e2 = 12" by (simp add: e2_def)
  obtain a where a: "mds_partial_layer_fast cfg r e2 = Inr a"
      and av: "map val a =
               (sum_list (map (\<lambda>i. unat (data (e2 ! i))
                                      * unat (FAST_PARTIAL_ROUND_W_HATS cfg r (i - 1))) [1..<12])
                  + unat (data (e2 ! 0))
                      * unat (MDS_MATRIX_CIRC cfg 0 + MDS_MATRIX_DIAG cfg 0)) mod P
               # map (\<lambda>i. (unat (data (e2 ! i))
                               + unat (data (e2 ! 0))
                                   * unat (FAST_PARTIAL_ROUND_VS cfg r (i - 1))) mod P) [1..<12]"
    using mds_partial_layer_fast_lanes [OF len, of cfg r] by (elim exE conjE)
  have "length (map val a) = 12" unfolding av by simp
  then have la: "1 < length a" by simp
  have "map val a ! 1 = 0"
    unfolding av by (simp add: e2_def upt_rec)
  then have a1: "val (a ! 1) = 0" using la by simp
  obtain b where b: "mds_layer cfg e2 = Inr b"
      and b1: "val (b ! 1) = unat (MDS_MATRIX_CIRC cfg 1) mod P"
    using mds_layer_e2_lane1 [of cfg] by blast
  have "a \<noteq> b" using a1 b1 assms by auto
  then show ?thesis by (simp add: sbox_zero_lane a b)
qed

text \<open>
  Claim C2, as stated: for every state and round index the fast partial-round step gives,
  bit for bit, the state that the generic MDS layer gives after the S-box on lane 0. On the
  state \<open>e2\<close> (whose lane 0 the S-box leaves at zero) the fast step returns the state
  unchanged, while the generic layer spreads lane 2 over all twelve lanes.
\<close>

theorem fast_differs_from_generic:
  "mds_partial_layer_fast example_config 0 (e2[0 := sbox_monomial (e2 ! 0)])
     = Inr [\<lparr>data = 0\<rparr>, \<lparr>data = 0\<rparr>, \<lparr>data = 1\<rparr>, \<lparr>data = 0\<rparr>, \<lparr>data = 0\<rparr>, \<lparr>data = 0\<rparr>,
         \<lparr>data = 0\<rparr>, \<lparr>data = 0\<rparr>, \<lparr>data = 0\<rparr>, \<lparr>data = 0\<rparr>, \<lparr>data = 0\<rparr>, \<lparr>data = 0\<rparr>]
   \<and> mds_layer example_config (e2[0 := sbox_monomial (e2 ! 0)])
     = Inr [\<lparr>data = 41\<rparr>, \<lparr>data = 15\<rparr>, \<lparr>data = 17\<rparr>, \<lparr>data = 20\<rparr>, \<lparr>data = 34\<rparr>, \<lparr>data = 18\<rparr>,
         \<lparr>data = 39\<rparr>, \<lparr>data = 13\<rparr>, \<lparr>data = 13\<rparr>, \<lparr>data = 28\<rparr>, \<lparr>data = 2\<rparr>, \<lparr>data = 16\<rparr>]"
  by code_simp

text \<open>
  Claim C2, amended: for every 12-element state and every round index \<open>r\<close>,
  \<^verbatim>\<open>mds_partial_layer_fast\<close> succeeds and applies, modulo \<open>P\<close>, the sparse matrix of the fast
  partial round: lane 0 becomes the residue of
  \<open>state[0] * (MDS_MATRIX_CIRC[0] + MDS_MATRIX_DIAG[0])\<close> plus the sum of
  \<open>state[i] * W_HATS[r][i - 1]\<close> over the lanes \<open>i\<close> from 1 to 11, accumulated without loss
  in the 160-bit accumulator, and every lane \<open>i\<close> from 1 to 11 becomes the residue of
  \<open>state[i] + state[0] * VS[r][i - 1]\<close>.
\<close>

theorem mds_partial_layer_fast_sparse:
  assumes "length state = 12"
  shows "\<exists>res. mds_partial_layer_fast cfg r state = Inr res
           \<and> map val res =
               (sum_list (map (\<lambda>i. unat (data (state ! i))
                                      * unat (FAST_PARTIAL_ROUND_W_HATS cfg r (i - 1))) [1..<12])
                  + unat (data (state ! 0))
                      * unat (MDS_MATRIX_CIRC cfg 0 + MDS_MATRIX_DIAG cfg 0)) mod P
               # map (\<lambda>i. (unat (data (state ! i))
                               + unat (data (state ! 0))
                                   * unat (FAST_PARTIAL_ROUND_VS cfg r (i - 1))) mod P) [1..<12]"
  using assms by (rule mds_partial_layer_fast_lanes)

theorem mds_partial_layer_fast_sparse_witness:
  "length e2 = 12
   \<and> (\<exists>res. mds_partial_layer_fast example_config 0 e2 = Inr res
          \<and> map val res = [0, 0, 1, 0, 0, 0, 0, 0, 0, 0, 0, 0])"
  using mds_partial_layer_fast_sparse [of e2 example_config 0]
  by (simp add: e2_def example_config_def upt_rec P_def)

section \<open>The modular inverse: zero inputs and assertions\<close>

lemma trailing_zeros_loop_nonzero:
  assumes "trailing_zeros_loop n count = Some r"
  shows "n \<noteq> 0"
  using assms
proof (rule trailing_zeros_loop.raw_induct [where P = "\<lambda>n count r. n \<noteq> 0", rotated])
  fix f :: "u64 \<Rightarrow> nat \<Rightarrow> nat option" and n :: u64 and count r :: nat
  assume ih: "\<And>n count r. f n count = Some r \<Longrightarrow> n \<noteq> 0"
    and step: "(if n AND 1 = 0 then f (drop_bit 1 n) (count + 1) else Some count) = Some r"
  show "n \<noteq> 0"
  proof
    assume "n = 0"
    then have "f 0 (count + 1) = Some r" using step by simp
    then show False using ih by blast
  qed
qed

lemma trailing_zeros_zero: "trailing_zeros 0 = None"
proof (cases "trailing_zeros 0")
  case None
  then show ?thesis .
next
  case (Some r)
  then have "(0::u64) \<noteq> 0"
    unfolding trailing_zeros_def by (rule trailing_zeros_loop_nonzero)
  then show ?thesis by simp
qed

lemma trailing_zeros_ORDER: "trailing_zeros ORDER = Some 0"
  by (simp add: trailing_zeros_def trailing_zeros_loop.simps ORDER_def)

lemma inverse_zero: "inverse \<lparr>data = 0\<rparr> = None"
  by (simp add: inverse_def inverse_gcd_def trailing_zeros_zero)

lemma inverse_order: "inverse \<lparr>data = ORDER\<rparr> = None"
proof -
  have "ORDER - ORDER = 0" by simp
  have s: "safe_iteration (ORDER, ORDER, 1, 0, 0) = None"
    by (simp add: safe_iteration_def i128_def trailing_zeros_zero)
  have "ORDER \<noteq> 1" by (simp add: ORDER_def)
  then show ?thesis
    by (simp add: inverse_def inverse_gcd_def trailing_zeros_ORDER s)
qed

lemma i128_error: "i128 x = Inl e \<Longrightarrow> e = SignedOverflow"
  by (auto simp: i128_def split: if_splits)

lemma safe_iteration_error: "safe_iteration s = Some (Inl e) \<Longrightarrow> e = SignedOverflow"
  by (auto simp: safe_iteration_def Let_def split: prod.splits if_splits sum.splits option.splits
      dest: i128_error)

lemma unsafe_iteration_error: "unsafe_iteration s = Some (Inl e) \<Longrightarrow> e = SignedOverflow"
  by (auto simp: unsafe_iteration_def Let_def split: prod.splits if_splits sum.splits option.splits
      dest: i128_error)

lemma inverse_loop_error_aux:
  "inverse_loop s = Some r \<Longrightarrow> \<forall>e. r = Inl e \<longrightarrow> e = SignedOverflow"
  by (rule inverse_loop.raw_induct
        [where P = "\<lambda>s r. \<forall>e. r = Inl e \<longrightarrow> e = SignedOverflow", rotated])
     (auto split: if_splits option.splits sum.splits dest: unsafe_iteration_error)

lemma inverse_loop_error: "inverse_loop s = Some (Inl e) \<Longrightarrow> e = SignedOverflow"
  using inverse_loop_error_aux [of s "Inl e"] by simp

lemma first_iteration_coefficient:
  "safe_iteration (f, g, 1, 0, k) = Some (Inr (f1, g1, c1, d1, k1)) \<Longrightarrow> c1 = 1 \<or> c1 = - 1"
  by (auto simp: safe_iteration_def Let_def i128_def
      split: prod.splits if_splits sum.splits option.splits)

lemma inverse_gcd_error: "inverse_gcd x = Some (Inl e) \<Longrightarrow> e = SignedOverflow"
  unfolding inverse_gcd_def Let_def
  by (auto split: option.splits sum.splits prod.splits if_splits
      dest: safe_iteration_error inverse_loop_error first_iteration_coefficient)

text \<open>
  Claim C8, as stated: \<^verbatim>\<open>inverse\<close> on an input that represents zero (the stored word 0, or
  the non-canonical zero \<open>p\<close>) fails an assertion. The check \<^verbatim>\<open>assert (f != 0)\<close> is commented
  out in the source; \<^verbatim>\<open>trailing_zeros\<close> is reached with the argument 0 (at once for the word
  0, after the first subtraction for \<open>p\<close>) and never returns, so there is no result at all.
\<close>

theorem inverse_of_zero_diverges:
  "inverse \<lparr>data = 0\<rparr> = None \<and> inverse \<lparr>data = ORDER\<rparr> = None"
  using inverse_zero inverse_order by simp

text \<open>
  Claim C8, amended: \<^verbatim>\<open>inverse\<close> on the stored word 0 or on the non-canonical zero \<open>p\<close>
  raises no assertion and does not return; and no input whatsoever makes \<^verbatim>\<open>inverse\<close> fail
  an assertion.
\<close>

theorem inverse_never_asserts:
  "inverse \<lparr>data = 0\<rparr> = None \<and> inverse \<lparr>data = ORDER\<rparr> = None
   \<and> inverse x \<noteq> Some (Inl AssertionFailed)"
proof -
  have "inverse x \<noteq> Some (Inl AssertionFailed)"
  proof
    assume "inverse x = Some (Inl AssertionFailed)"
    then have "inverse_gcd x = Some (Inl AssertionFailed)"
      by (auto simp: inverse_def split: option.splits sum.splits gcd_exit.splits)
    then show False by (auto dest: inverse_gcd_error)
  qed
  then show ?thesis using inverse_zero inverse_order by simp
qed

section \<open>The modular inverse: canonicalisation of the coefficient\<close>

lemma uint_ORDER: "uint ORDER = 18446744069414584321"
  by (simp add: ORDER_def)

lemma canon_add_eq: "canon_add c = (if c < 0 then c mod uint ORDER else c)"
proof (induction c rule: canon_add.induct)
  case (1 c)
  show ?case
  proof (cases "c < 0")
    case False
    then show ?thesis by (subst canon_add.simps) simp
  next
    case True
    have step: "canon_add c = canon_add (c + uint ORDER)"
      using True by (subst canon_add.simps) simp
    show ?thesis
    proof (cases "c + uint ORDER < 0")
      case T2: True
      then have "canon_add (c + uint ORDER) = (c + uint ORDER) mod uint ORDER"
        using 1 True by simp
      then show ?thesis using True step by simp
    next
      case False
      then have "canon_add (c + uint ORDER) = c + uint ORDER"
        using 1 True by simp
      moreover have "c mod uint ORDER = c + uint ORDER"
      proof -
        have "(c + uint ORDER) mod uint ORDER = c + uint ORDER"
          using False True by (intro mod_pos_pos_trivial) (simp_all add: uint_ORDER)
        then show ?thesis by simp
      qed
      ultimately show ?thesis using True step by simp
    qed
  qed
qed

lemma canon_sub_eq: "0 \<le> c \<Longrightarrow> canon_sub c = c mod uint ORDER"
proof (induction c rule: canon_sub.induct)
  case (1 c)
  show ?case
  proof (cases "uint ORDER \<le> c")
    case True
    then have "canon_sub c = canon_sub (c - uint ORDER)"
      by (subst canon_sub.simps) simp
    also have "\<dots> = (c - uint ORDER) mod uint ORDER"
      using 1 True by simp
    also have "\<dots> = c mod uint ORDER" by simp
    finally show ?thesis .
  next
    case False
    then have "canon_sub c = c" by (subst canon_sub.simps) simp
    moreover have "c mod uint ORDER = c"
      using False 1(2) by (intro mod_pos_pos_trivial) simp_all
    ultimately show ?thesis by simp
  qed
qed

lemma canonicalize_eq: "canon_sub (canon_add c) = c mod uint ORDER"
proof (cases "c < 0")
  case True
  then have "canon_add c = c mod uint ORDER" by (simp add: canon_add_eq)
  moreover have "0 \<le> c mod uint ORDER" by (simp add: uint_ORDER)
  ultimately show ?thesis by (simp add: canon_sub_eq)
next
  case False
  then show ?thesis by (simp add: canon_add_eq canon_sub_eq)
qed

text \<open>
  Claim C9, as stated: when the loop of \<^verbatim>\<open>inverse\<close> ends, the coefficient \<open>c\<close> lies strictly
  between \<open>- 2 p\<close> and \<open>2 p\<close>, so that two additions or one subtraction of \<open>p\<close> suffice. For
  the input 805 the loop ends with \<open>c\<close> above \<open>4 p\<close> (four subtractions), for the input 2403
  with \<open>c\<close> below \<open>- 2 p\<close> (three additions).
\<close>

theorem loop_exit_outside_bound:
  "inverse_gcd \<lparr>data = 805\<rparr> = Some (Inr (LoopExit 89483895187886116589 77))
   \<and> 2 * uint ORDER \<le> (89483895187886116589 :: int)
   \<and> inverse_gcd \<lparr>data = 2403\<rparr> = Some (Inr (LoopExit (- 38021940640124115731) 76))
   \<and> (- 38021940640124115731 :: int) \<le> - 2 * uint ORDER"
  by code_simp

text \<open>
  Claim C9, amended: the coefficient at the end of the loop is not confined to the interval
  from \<open>- 2 p\<close> to \<open>2 p\<close>; whatever its value \<open>c\<close>, the two canonicalisation loops end and
  leave \<open>c mod p\<close>, the representative of \<open>c\<close> in \<open>[0, p)\<close>.
\<close>

theorem canonicalization_any_coefficient:
  "canon_sub (canon_add c) = c mod uint ORDER
   \<and> 0 \<le> canon_sub (canon_add c) \<and> canon_sub (canon_add c) < uint ORDER"
  by (simp add: canonicalize_eq uint_ORDER)

section \<open>The modular inverse: termination and the product with the input\<close>






































lemma coprime_self_one:
  fixes F :: nat
  assumes "coprime F F"
  shows "F = 1"
  using assms by simp













section \<open>The modulus is prime\<close>
















section \<open>Claims about the modular inverse\<close>

text \<open>The branch of \<^verbatim>\<open>inverse\<close> that returns \<^verbatim>\<open>-inverse_2exp(k)\<close>: for the input \<open>p - 4\<close> the
  returned word is off by \<open>EPSILON\<close> from the inverse, and the product with the input is not
  congruent to one.\<close>

lemma inverse_negation_branch_wrong:
  "inverse \<lparr>data = 0xFFFFFFFEFFFFFFFD\<rparr> = Some (Inr \<lparr>data = 0x40000000BFFFFFFF\<rparr>)
   \<and> gf_mul \<lparr>data = 0xFFFFFFFEFFFFFFFD\<rparr> \<lparr>data = 0x40000000BFFFFFFF\<rparr>
       = \<lparr>data = 0xFFFFFFFB00000006\<rparr>"
  by code_simp




end
